theory Spec2Isabelle
  imports Main
begin

section \<open>JavaScript strings\<close>

text \<open>
  A JavaScript string is a sequence of UTF-16 code units.  A code unit is modelled by its
  number; the ASCII literals of the source are written with \<open>js\<close>, the other literals
  (the Chinese message texts) by their code units.
\<close>

type_synonym jschar = nat
type_synonym jsstring = "jschar list"

definition js :: "string \<Rightarrow> jsstring" where
  "js s = map of_char s"

definition isDigit :: "jschar \<Rightarrow> bool" where
  \<comment> \<open>the regular expression class \<open>\d\<close>: the ten ASCII digits\<close>
  "isDigit c \<longleftrightarrow> 48 \<le> c \<and> c \<le> 57"

definition stripNonDigits :: "jsstring \<Rightarrow> jsstring" where
  \<comment> \<open>\<open>s.replace(/\D/g, '')\<close>\<close>
  "stripNonDigits s = filter isDigit s"

definition digitsValue :: "jsstring \<Rightarrow> nat" where
  "digitsValue ds = foldl (\<lambda>acc d. 10 * acc + (d - 48)) 0 ds"

definition parseInt :: "jsstring \<Rightarrow> nat option" where
  \<comment> \<open>\<open>parseInt\<close> on a string of decimal digits, the only strings the source gives it:
      \<open>None\<close> is NaN (no digit).  The value is the exact natural number; the source's
      double is that number up to \<open>2 ^ 53\<close>.\<close>
  "parseInt ds = (if ds = [] then None else Some (digitsValue ds))"

fun natToString :: "nat \<Rightarrow> jsstring" where
  \<comment> \<open>\<open>String(n)\<close> for a non-negative integer below \<open>10 ^ 21\<close>\<close>
  "natToString n = (if n < 10 then [48 + n] else natToString (n div 10) @ [48 + n mod 10])"

declare natToString.simps [simp del]

definition MAX_SAFE_INTEGER :: nat where
  "MAX_SAFE_INTEGER = 9007199254740991"

section \<open>JavaScript values and objects\<close>

text \<open>
  The values \<open>JSON.parse\<close> can return, and \<open>undefined\<close>.  A number is kept as the
  text it was read from.  An object is the list of its own properties in creation order,
  each key once.
\<close>

datatype jsval =
    JUndefined
  | JNull
  | JBool bool
  | JNum jsstring
  | JStr jsstring
  | JArr "jsval list"
  | JObj "(jsstring \<times> jsval) list"

type_synonym jsobject = "(jsstring \<times> jsval) list"

fun setProp :: "jsobject \<Rightarrow> jsstring \<Rightarrow> jsval \<Rightarrow> jsobject" where
  \<comment> \<open>\<open>obj[k] = v\<close>: an existing property keeps its place\<close>
  "setProp [] k v = [(k, v)]"
| "setProp ((k', v') # ps) k v = (if k' = k then (k, v) # ps else (k', v') # setProp ps k v)"

definition isArrayIndex :: "jsstring \<Rightarrow> bool" where
  \<comment> \<open>the canonical decimal text of an integer below \<open>2 ^ 32 - 1\<close>\<close>
  "isArrayIndex k \<longleftrightarrow>
     k \<noteq> [] \<and> list_all isDigit k \<and> (length k = 1 \<or> hd k \<noteq> 48) \<and> digitsValue k < 4294967295"

definition ownKeys :: "jsobject \<Rightarrow> jsstring list" where
  \<comment> \<open>own property keys in the order of the language: the array indices ascending,
      then the other keys in creation order\<close>
  "ownKeys ps =
     sort_key digitsValue (filter isArrayIndex (map fst ps)) @
     filter (\<lambda>k. \<not> isArrayIndex k) (map fst ps)"

fun objectKeys :: "jsval \<Rightarrow> jsstring list option" where
  \<comment> \<open>\<open>Object.keys(v)\<close>; \<open>None\<close> is the TypeError on \<open>null\<close> and \<open>undefined\<close>\<close>
  "objectKeys (JObj ps) = Some (ownKeys ps)"
| "objectKeys (JArr xs) = Some (map natToString [0..<length xs])"
| "objectKeys (JStr s) = Some (map natToString [0..<length s])"
| "objectKeys (JNum _) = Some []"
| "objectKeys (JBool _) = Some []"
| "objectKeys JNull = None"
| "objectKeys JUndefined = None"

fun getProp :: "jsval \<Rightarrow> jsstring \<Rightarrow> jsval" where
  \<comment> \<open>\<open>v[k]\<close> for an own key \<open>k\<close> of \<open>v\<close>\<close>
  "getProp (JObj ps) k = (case map_of ps k of Some v \<Rightarrow> v | None \<Rightarrow> JUndefined)"
| "getProp (JArr xs) k =
     (if isArrayIndex k \<and> digitsValue k < length xs then xs ! digitsValue k else JUndefined)"
| "getProp (JStr s) k =
     (if isArrayIndex k \<and> digitsValue k < length s then JStr [s ! digitsValue k] else JUndefined)"
| "getProp _ k = JUndefined"

section \<open>The batch loop of processFile\<close>

definition BATCH_SIZE :: nat where
  "BATCH_SIZE = 3"

text \<open>What a \<open>catch\<close> receives: an \<open>Error\<close> with its message, or any other value.\<close>

datatype thrown = ErrorObj jsstring | NonError

text \<open>
  What a run does to the outside: a message given to \<open>onProgress\<close>, and a call of
  \<open>callGeminiWithRetry\<close> on the sub-document made of the listed 0-based pages.
\<close>

datatype event = Progress jsstring | Extract "nat list"

definition typeErrorMessage :: jsstring where
  \<comment> \<open>the message of the TypeError of \<open>Object.keys(null)\<close>\<close>
  "typeErrorMessage = js ''Cannot convert undefined or null to object''"

definition progressMessage :: "nat \<Rightarrow> nat \<Rightarrow> nat \<Rightarrow> jsstring" where
  "progressMessage startPage endPage totalPages =
     [27491, 22312, 20998, 26512, 31532] @ js '' '' @ natToString startPage @ js '' - '' @
     natToString endPage @ js '' '' @ [38913] @ js '' ('' @ [20849] @ js '' '' @
     natToString totalPages @ js '' '' @ [38913] @ js '')...''"

definition failureMessage :: "nat \<Rightarrow> nat \<Rightarrow> thrown \<Rightarrow> jsstring" where
  "failureMessage startPage endPage batchError =
     [31532] @ js '' '' @ natToString startPage @ js ''-'' @ natToString endPage @ js '' '' @
     [38913, 34389, 29702, 22833, 25943] @ js '': '' @
     (case batchError of ErrorObj message \<Rightarrow> message | NonError \<Rightarrow> [26410, 30693, 37679, 35492])"

definition toGlobalKey :: "nat \<Rightarrow> jsstring \<Rightarrow> jsstring" where
  \<comment> \<open>the key under which the loop body stores \<open>batchResult[localKey]\<close>, for the batch
      that starts at index \<open>i\<close>\<close>
  "toGlobalKey i localKey =
     (let startPage = i + 1 in
      case parseInt (stripNonDigits localKey) of
        Some localNum \<Rightarrow> natToString (i + localNum)
      | None \<Rightarrow> localKey @ js ''_batch_'' @ natToString startPage)"

definition mergeBatch :: "nat \<Rightarrow> jsval \<Rightarrow> jsstring list \<Rightarrow> jsobject \<Rightarrow> jsobject" where
  \<comment> \<open>the \<open>forEach\<close> over the keys of the batch result\<close>
  "mergeBatch i batchResult keys aggregatedData =
     foldl (\<lambda>agg localKey. setProp agg (toGlobalKey i localKey) (getProp batchResult localKey))
       aggregatedData keys"

definition tryBatch ::
  "(nat list \<Rightarrow> thrown + jsval) \<Rightarrow> nat \<Rightarrow> nat list \<Rightarrow> jsobject \<Rightarrow> thrown + jsobject" where
  \<comment> \<open>the body of the \<open>try\<close>\<close>
  "tryBatch call i pageIndices aggregatedData =
     (case call pageIndices of
        Inl e \<Rightarrow> Inl e
      | Inr batchResult \<Rightarrow>
          (case objectKeys batchResult of
             None \<Rightarrow> Inl (ErrorObj typeErrorMessage)
           | Some keys \<Rightarrow> Inr (mergeBatch i batchResult keys aggregatedData)))"

function batchLoop ::
  "(nat list \<Rightarrow> thrown + jsval) \<Rightarrow> bool \<Rightarrow> nat \<Rightarrow> nat \<Rightarrow> event list \<Rightarrow> jsobject
     \<Rightarrow> event list \<times> (jsstring + jsobject)" where
  "batchLoop call hasProgress totalPages i evs aggregatedData =
     (if i < totalPages then
        (let startPage = i + 1;
             endPage = min (i + BATCH_SIZE) totalPages;
             evs1 = (if hasProgress
                     then evs @ [Progress (progressMessage startPage endPage totalPages)]
                     else evs);
             pageIndices = map (\<lambda>j. i + j) [0..<endPage - startPage + 1];
             evs2 = evs1 @ [Extract pageIndices]
         in case tryBatch call i pageIndices aggregatedData of
              Inl batchError \<Rightarrow> (evs2, Inl (failureMessage startPage endPage batchError))
            | Inr aggregatedData' \<Rightarrow>
                batchLoop call hasProgress totalPages (i + BATCH_SIZE) evs2 aggregatedData')
      else (evs, Inr aggregatedData))"
  by pat_completeness auto
termination
  by (relation "measure (\<lambda>(call, hasProgress, totalPages, i, evs, agg). totalPages - i)")
     (auto simp: BATCH_SIZE_def)

declare batchLoop.simps [simp del]

definition processFile ::
  "jsstring \<Rightarrow> nat option \<Rightarrow> (nat list \<Rightarrow> thrown + jsval) \<Rightarrow> bool
     \<Rightarrow> event list \<times> (jsstring + jsobject)" where
  \<comment> \<open>\<open>load\<close> is what \<open>PDFDocument.load\<close> gives: the page count of the document, or
      \<open>None\<close> when it throws; \<open>hasProgress\<close> says whether \<open>onProgress\<close> was passed\<close>
  "processFile apiKey load call hasProgress =
     (if apiKey = [] then
        ([], Inl ([25214, 19981, 21040] @ js '' API '' @
                  [37329, 38000, 65292, 35531, 30906, 35469, 29872, 22659, 35722, 25976] @
                  js '' process.env.API_KEY '' @ [24050, 35373, 23450, 12290]))
      else case load of
        None \<Rightarrow>
          ([], Inl ([28961, 27861, 35712, 21462] @ js '' PDF '' @
                    [27284, 26696, 65292, 35531, 30906, 35469, 27284, 26696, 26159, 21542,
                     25613, 27584, 12290]))
      | Some totalPages \<Rightarrow> batchLoop call hasProgress totalPages 0 [] [])"

text \<open>The windows the loop goes through, as the page index lists it builds.\<close>

function windows :: "nat \<Rightarrow> nat \<Rightarrow> nat list list" where
  "windows totalPages i =
     (if i < totalPages then
        (let startPage = i + 1;
             endPage = min (i + BATCH_SIZE) totalPages
         in map (\<lambda>j. i + j) [0..<endPage - startPage + 1] # windows totalPages (i + BATCH_SIZE))
      else [])"
  by pat_completeness auto
termination
  by (relation "measure (\<lambda>(totalPages, i). totalPages - i)") (auto simp: BATCH_SIZE_def)

declare windows.simps [simp del]

fun extractsOf :: "event list \<Rightarrow> nat list list" where
  "extractsOf [] = []"
| "extractsOf (Extract ps # evs) = ps # extractsOf evs"
| "extractsOf (Progress _ # evs) = extractsOf evs"

section \<open>Cleaning the text of a response\<close>

definition isLineTerminator :: "jschar \<Rightarrow> bool" where
  \<comment> \<open>LF, CR, LINE SEPARATOR, PARAGRAPH SEPARATOR: where \<open>.\<close> stops and where, under
      the flag \<open>m\<close>, \<open>^\<close> and \<open>$\<close> match\<close>
  "isLineTerminator c \<longleftrightarrow> c = 10 \<or> c = 13 \<or> c = 8232 \<or> c = 8233"

definition isSpace :: "jschar \<Rightarrow> bool" where
  \<comment> \<open>the class \<open>\s\<close>, which is also what \<open>trim\<close> removes: white space and line
      terminators\<close>
  "isSpace c \<longleftrightarrow>
     c = 9 \<or> c = 10 \<or> c = 11 \<or> c = 12 \<or> c = 13 \<or> c = 32 \<or> c = 160 \<or> c = 5760 \<or>
     (8192 \<le> c \<and> c \<le> 8202) \<or> c = 8232 \<or> c = 8233 \<or> c = 8239 \<or> c = 8287 \<or>
     c = 12288 \<or> c = 65279"

definition trim :: "jsstring \<Rightarrow> jsstring" where
  "trim s = rev (dropWhile isSpace (rev (dropWhile isSpace s)))"

definition startsWith :: "jsstring \<Rightarrow> jsstring \<Rightarrow> bool" where
  "startsWith s p \<longleftrightarrow> take (length p) s = p"

definition endsWith :: "jsstring \<Rightarrow> jsstring \<Rightarrow> bool" where
  "endsWith s p \<longleftrightarrow> length p \<le> length s \<and> drop (length s - length p) s = p"

definition toLowerAscii :: "jschar \<Rightarrow> jschar" where
  "toLowerAscii c = (if 65 \<le> c \<and> c \<le> 90 then c + 32 else c)"

definition stripOpeningFence :: "jsstring \<Rightarrow> jsstring" where
  \<comment> \<open>\<open>s.replace(/^```(json)?/i, '')\<close>; away from ASCII no character matches a letter of
      \<open>json\<close> under the flag \<open>i\<close>\<close>
  "stripOpeningFence s =
     (if startsWith s (js ''```'') then
        (let r = drop 3 s in
         if map toLowerAscii (take 4 r) = js ''json'' then drop 4 r else r)
      else s)"

definition stripClosingFence :: "jsstring \<Rightarrow> jsstring" where
  \<comment> \<open>\<open>s.replace(/```$/, '')\<close>: without the flag \<open>m\<close>, \<open>$\<close> is the end of the text\<close>
  "stripClosingFence s = (if endsWith s (js ''```'') then take (length s - 3) s else s)"

function stripCommentLines :: "bool \<Rightarrow> jsstring \<Rightarrow> jsstring" where
  \<comment> \<open>\<open>s.replace(/^\s*\/\/.*$/gm, '')\<close>, read from left to right; the flag says whether
      the position is the start of a line.  A match starts at the start of a line, takes
      all the white space that follows (line terminators too), needs \<open>//\<close> there, and
      goes on to the end of that line; the search resumes at that end, which is not the
      start of a line.\<close>
  "stripCommentLines lineStart [] = []"
| "stripCommentLines lineStart (c # cs) =
     (if lineStart \<and> startsWith (dropWhile isSpace (c # cs)) (js ''//'')
      then stripCommentLines False
             (dropWhile (\<lambda>x. \<not> isLineTerminator x) (drop 2 (dropWhile isSpace (c # cs))))
      else c # stripCommentLines (isLineTerminator c) cs)"
  by pat_completeness auto
termination
proof (relation "measure (\<lambda>(b, s). length s)")
  fix lineStart :: bool and c :: jschar and cs :: jsstring
  assume "lineStart \<and> startsWith (dropWhile isSpace (c # cs)) (js ''//'')"
  moreover have "x \<noteq> []" if "startsWith x (js ''//'')" for x
    using that by (cases x) (simp_all add: startsWith_def js_def)
  ultimately have "dropWhile isSpace (c # cs) \<noteq> []"
    by blast
  then have "length (drop 2 (dropWhile isSpace (c # cs))) < length (dropWhile isSpace (c # cs))"
    by simp
  also have "\<dots> \<le> length (c # cs)"
    by (rule length_dropWhile_le)
  finally have "length (dropWhile (\<lambda>x. \<not> isLineTerminator x)
                   (drop 2 (dropWhile isSpace (c # cs)))) < length (c # cs)"
    using length_dropWhile_le [of "\<lambda>x. \<not> isLineTerminator x"
        "drop 2 (dropWhile isSpace (c # cs))"] by linarith
  then show "((False, dropWhile (\<lambda>x. \<not> isLineTerminator x)
                (drop 2 (dropWhile isSpace (c # cs)))), (lineStart, c # cs))
             \<in> measure (\<lambda>(b, s). length s)"
    by simp
qed simp_all

declare stripCommentLines.simps [simp del]

definition fromFirstBrace :: "jsstring \<Rightarrow> jsstring" where
  \<comment> \<open>\<open>firstBracket = s.indexOf('{'); if (firstBracket !== -1) s = s.substring(firstBracket)\<close>\<close>
  "fromFirstBrace s = (if 123 \<in> set s then dropWhile (\<lambda>c. c \<noteq> 123) s else s)"

definition cleanResponse :: "jsstring \<Rightarrow> jsstring" where
  \<comment> \<open>the text handed to \<open>JSON.parse\<close>\<close>
  "cleanResponse textResponse =
     (let jsonString = trim textResponse;
          jsonString = (if startsWith jsonString (js ''```'')
                        then trim (stripClosingFence (stripOpeningFence jsonString))
                        else jsonString);
          jsonString = stripCommentLines True jsonString
      in fromFirstBrace jsonString)"

section \<open>JSON.parse\<close>

text \<open>
  \<open>JSON.parse\<close> belongs to the language.  It is modelled after the JSON grammar: the text
  is cut into tokens, with white space (tab, line feed, carriage return, space) allowed
  between them, and the tokens are read by recursive descent.
\<close>

datatype token =
    TLBrace | TRBrace | TLBrack | TRBrack | TComma | TColon
  | TString jsstring | TNumber jsstring | TTrue | TFalse | TNull

definition isJsonSpace :: "jschar \<Rightarrow> bool" where
  "isJsonSpace c \<longleftrightarrow> c = 9 \<or> c = 10 \<or> c = 13 \<or> c = 32"

definition hexValue :: "jschar \<Rightarrow> nat option" where
  "hexValue c =
     (if 48 \<le> c \<and> c \<le> 57 then Some (c - 48)
      else if 97 \<le> c \<and> c \<le> 102 then Some (c - 87)
      else if 65 \<le> c \<and> c \<le> 70 then Some (c - 55)
      else None)"

definition hex4 :: "jsstring \<Rightarrow> jschar option" where
  \<comment> \<open>the code unit written by the four hexadecimal digits at the head of the text\<close>
  "hex4 s =
     (case s of
        a # b # c # d # _ \<Rightarrow>
          (case (hexValue a, hexValue b, hexValue c, hexValue d) of
             (Some x, Some y, Some z, Some w) \<Rightarrow> Some (4096 * x + 256 * y + 16 * z + w)
           | _ \<Rightarrow> None)
      | _ \<Rightarrow> None)"

definition unescape :: "jschar \<Rightarrow> jschar option" where
  \<comment> \<open>the character after a backslash, \<open>u\<close> apart\<close>
  "unescape e =
     (if e = 34 then Some 34 else if e = 92 then Some 92 else if e = 47 then Some 47
      else if e = 98 then Some 8 else if e = 102 then Some 12 else if e = 110 then Some 10
      else if e = 114 then Some 13 else if e = 116 then Some 9 else None)"

definition consTo :: "'a \<Rightarrow> ('a list \<times> 'b) option \<Rightarrow> ('a list \<times> 'b) option" where
  "consTo x r = (case r of None \<Rightarrow> None | Some (xs, rest) \<Rightarrow> Some (x # xs, rest))"

function lexString :: "jsstring \<Rightarrow> (jsstring \<times> jsstring) option" where
  \<comment> \<open>the text after an opening quote: the string it writes and what follows the
      closing quote\<close>
  "lexString [] = None"
| "lexString (c # cs) =
     (if c = 34 then Some ([], cs)
      else if c = 92 then
        (case cs of
           [] \<Rightarrow> None
         | e # es \<Rightarrow>
             if e = 117 then
               (case hex4 es of None \<Rightarrow> None | Some u \<Rightarrow> consTo u (lexString (drop 4 es)))
             else
               (case unescape e of None \<Rightarrow> None | Some ch \<Rightarrow> consTo ch (lexString es)))
      else if c < 32 then None
      else consTo c (lexString cs))"
  by pat_completeness auto
termination
  by (relation "measure length") auto

definition lexInt :: "jsstring \<Rightarrow> (jsstring \<times> jsstring) option" where
  "lexInt s =
     (case s of
        [] \<Rightarrow> None
      | c # cs \<Rightarrow>
          if c = 48 then Some ([48], cs)
          else if isDigit c then Some (takeWhile isDigit s, dropWhile isDigit s)
          else None)"

definition lexFrac :: "jsstring \<Rightarrow> (jsstring \<times> jsstring) option" where
  "lexFrac s =
     (case s of
        [] \<Rightarrow> Some ([], s)
      | c # cs \<Rightarrow>
          if c = 46 then
            (if takeWhile isDigit cs = [] then None
             else Some (c # takeWhile isDigit cs, dropWhile isDigit cs))
          else Some ([], s))"

definition lexSign :: "jsstring \<Rightarrow> jsstring \<times> jsstring" where
  "lexSign s = (case s of [] \<Rightarrow> ([], s) | d # ds \<Rightarrow> if d = 43 \<or> d = 45 then ([d], ds) else ([], s))"

definition lexExp :: "jsstring \<Rightarrow> (jsstring \<times> jsstring) option" where
  "lexExp s =
     (case s of
        [] \<Rightarrow> Some ([], s)
      | c # cs \<Rightarrow>
          if c = 101 \<or> c = 69 then
            (case lexSign cs of
               (sg, r) \<Rightarrow>
                 if takeWhile isDigit r = [] then None
                 else Some (c # sg @ takeWhile isDigit r, dropWhile isDigit r))
          else Some ([], s))"

definition lexNumber :: "jsstring \<Rightarrow> (jsstring \<times> jsstring) option" where
  \<comment> \<open>a number token at the head of the text, and what follows it\<close>
  "lexNumber s =
     (case (case s of [] \<Rightarrow> ([], s) | c # cs \<Rightarrow> if c = 45 then ([c], cs) else ([], s)) of
        (sg, r) \<Rightarrow>
          (case lexInt r of
             None \<Rightarrow> None
           | Some (i, r1) \<Rightarrow>
               (case lexFrac r1 of
                  None \<Rightarrow> None
                | Some (f, r2) \<Rightarrow>
                    (case lexExp r2 of
                       None \<Rightarrow> None
                     | Some (e, r3) \<Rightarrow> Some (sg @ i @ f @ e, r3)))))"

function tokenize :: "jsstring \<Rightarrow> token list option" where
  "tokenize [] = Some []"
| "tokenize (c # cs) =
     (if isJsonSpace c then tokenize cs
      else if c = 123 then map_option ((#) TLBrace) (tokenize cs)
      else if c = 125 then map_option ((#) TRBrace) (tokenize cs)
      else if c = 91 then map_option ((#) TLBrack) (tokenize cs)
      else if c = 93 then map_option ((#) TRBrack) (tokenize cs)
      else if c = 44 then map_option ((#) TComma) (tokenize cs)
      else if c = 58 then map_option ((#) TColon) (tokenize cs)
      else if c = 34 then
        (case lexString cs of
           None \<Rightarrow> None
         | Some (s, rest) \<Rightarrow> map_option ((#) (TString s)) (tokenize rest))
      else if c = 45 \<or> isDigit c then
        (case lexNumber (c # cs) of
           None \<Rightarrow> None
         | Some (n, rest) \<Rightarrow> map_option ((#) (TNumber n)) (tokenize rest))
      else if startsWith (c # cs) (js ''true'') then map_option ((#) TTrue) (tokenize (drop 3 cs))
      else if startsWith (c # cs) (js ''false'') then map_option ((#) TFalse) (tokenize (drop 4 cs))
      else if startsWith (c # cs) (js ''null'') then map_option ((#) TNull) (tokenize (drop 3 cs))
      else None)"
  by pat_completeness auto
termination
proof -
  have str: "length rest < length s" if "lexString s = Some (d, rest)" for s d rest
    using that
  proof (induction s arbitrary: d rest rule: lexString.induct)
    case 1
    then show ?case by simp
  next
    case (2 c cs)
    show ?case
    proof (cases "c = 34")
      case True
      with "2.prems" show ?thesis by simp
    next
      case n34: False
      show ?thesis
      proof (cases "c = 92")
        case True
        show ?thesis
        proof (cases cs)
          case Nil
          with "2.prems" True show ?thesis by simp
        next
          case (Cons e es)
          show ?thesis
          proof (cases "e = 117")
            case u: True
            from "2.prems" True Cons u obtain uu d' where
              "hex4 es = Some uu" "lexString (drop 4 es) = Some (d', rest)"
              by (auto simp: consTo_def split: option.splits)
            with "2.IH"(1) [OF n34 True Cons u] have "length rest < length (drop 4 es)"
              by blast
            then show ?thesis using Cons by simp
          next
            case nu: False
            from "2.prems" True Cons nu obtain ch d' where
              "unescape e = Some ch" "lexString es = Some (d', rest)"
              by (auto simp: consTo_def split: option.splits)
            with "2.IH"(2) [OF n34 True Cons nu] have "length rest < length es"
              by blast
            then show ?thesis using Cons by simp
          qed
        qed
      next
        case False
        with "2.prems" n34 obtain d' where "lexString cs = Some (d', rest)"
          by (auto simp: consTo_def split: option.splits if_splits)
        with "2.IH"(3) [OF n34 False] "2.prems" n34 False have "length rest < length cs"
          by (auto split: if_splits)
        then show ?thesis by simp
      qed
    qed
  qed
  have dw: "length (dropWhile isDigit r) \<le> length r" for r
    by (rule length_dropWhile_le)
  have int: "length r1 < length r" if "lexInt r = Some (i, r1)" for r i r1
    using that dw [of "tl r"] by (cases r) (auto simp: lexInt_def split: if_splits)
  have frac: "length r2 \<le> length r1" if "lexFrac r1 = Some (f, r2)" for r1 f r2
    using that dw [of "tl r1"] by (cases r1) (auto simp: lexFrac_def split: if_splits)
  have sign: "length r \<le> length s" if "lexSign s = (sg, r)" for s sg r
    using that by (cases s) (auto simp: lexSign_def split: if_splits)
  have exp: "length r3 \<le> length r2" if "lexExp r2 = Some (e, r3)" for r2 e r3
  proof (cases r2)
    case Nil
    with that show ?thesis by (simp add: lexExp_def)
  next
    case (Cons c cs)
    obtain sg r where s: "lexSign cs = (sg, r)" by (cases "lexSign cs")
    from sign [OF s] dw [of r] that Cons s show ?thesis
      by (auto simp: lexExp_def split: if_splits)
  qed
  have num: "length rest < length s" if "lexNumber s = Some (n, rest)" for s n rest
  proof -
    obtain sg r where sr: "(case s of [] \<Rightarrow> ([], s) | c # cs \<Rightarrow> if c = 45 then ([c], cs) else ([], s))
                            = (sg, r)"
      by (cases "(case s of [] \<Rightarrow> ([], s) | c # cs \<Rightarrow> if c = 45 then ([c], cs) else ([], s))")
    then have 0: "length r \<le> length s"
      by (cases s) (auto split: if_splits)
    from that sr obtain i r1 f r2 e where
      "lexInt r = Some (i, r1)" "lexFrac r1 = Some (f, r2)" "lexExp r2 = Some (e, rest)"
      by (auto simp: lexNumber_def split: option.splits)
    from int [OF this(1)] frac [OF this(2)] exp [OF this(3)] 0 show ?thesis by linarith
  qed
  show ?thesis
    by (relation "measure length") (auto dest: str num)
qed

text \<open>
  The descent on the tokens.  The first argument bounds the depth of the calls; one more
  than the number of tokens is enough for every text (lemma \<open>JSONparse_any_fuel\<close>).  A key written twice keeps its first place and
  takes the last value, as \<open>setProp\<close> does.
\<close>

definition startsWithToken :: "token list \<Rightarrow> token \<Rightarrow> bool" where
  "startsWithToken ts t \<longleftrightarrow> ts \<noteq> [] \<and> hd ts = t"

definition memberKey :: "token list \<Rightarrow> (jsstring \<times> token list) option" where
  \<comment> \<open>a key and its colon at the head of the tokens, and what follows them\<close>
  "memberKey ts = (case ts of TString k # TColon # ts' \<Rightarrow> Some (k, ts') | _ \<Rightarrow> None)"

fun parseValue :: "nat \<Rightarrow> token list \<Rightarrow> (jsval \<times> token list) option"
  and parseElements :: "nat \<Rightarrow> token list \<Rightarrow> jsval list \<Rightarrow> (jsval \<times> token list) option"
  and parseMembers :: "nat \<Rightarrow> token list \<Rightarrow> jsobject \<Rightarrow> (jsval \<times> token list) option"
where
  "parseValue 0 ts = None"
| "parseValue (Suc n) [] = None"
| "parseValue (Suc n) (t # ts) =
     (case t of
        TString s \<Rightarrow> Some (JStr s, ts)
      | TNumber x \<Rightarrow> Some (JNum x, ts)
      | TTrue \<Rightarrow> Some (JBool True, ts)
      | TFalse \<Rightarrow> Some (JBool False, ts)
      | TNull \<Rightarrow> Some (JNull, ts)
      | TLBrack \<Rightarrow>
          if startsWithToken ts TRBrack then Some (JArr [], tl ts) else parseElements n ts []
      | TLBrace \<Rightarrow>
          if startsWithToken ts TRBrace then Some (JObj [], tl ts) else parseMembers n ts []
      | _ \<Rightarrow> None)"
| "parseElements 0 ts acc = None"
| "parseElements (Suc n) ts acc =
     (case parseValue n ts of
        None \<Rightarrow> None
      | Some (v, ts') \<Rightarrow>
          if startsWithToken ts' TComma then parseElements n (tl ts') (acc @ [v])
          else if startsWithToken ts' TRBrack then Some (JArr (acc @ [v]), tl ts')
          else None)"
| "parseMembers 0 ts acc = None"
| "parseMembers (Suc n) ts acc =
     (case memberKey ts of
        None \<Rightarrow> None
      | Some (k, ts') \<Rightarrow>
          (case parseValue n ts' of
             None \<Rightarrow> None
           | Some (v, ts'') \<Rightarrow>
               if startsWithToken ts'' TComma then parseMembers n (tl ts'') (setProp acc k v)
               else if startsWithToken ts'' TRBrace then Some (JObj (setProp acc k v), tl ts'')
               else None))"

definition JSONparse :: "jsstring \<Rightarrow> jsval option" where
  \<comment> \<open>\<open>JSON.parse(text)\<close>; \<open>None\<close> is the SyntaxError\<close>
  "JSONparse text =
     (case tokenize text of
        None \<Rightarrow> None
      | Some ts \<Rightarrow>
          (case parseValue (Suc (length ts)) ts of
             Some (v, []) \<Rightarrow> Some v
           | _ \<Rightarrow> None))"

section \<open>Reading and repairing the response: callGeminiWithRetry and tryRepairJson\<close>

definition lastIndexOf :: "jsstring \<Rightarrow> jsstring \<Rightarrow> nat option" where
  \<comment> \<open>\<open>s.lastIndexOf(p)\<close>; \<open>None\<close> is \<open>-1\<close>\<close>
  "lastIndexOf s p =
     (case filter (\<lambda>i. take (length p) (drop i s) = p) (rev [0..<Suc (length s - length p)]) of
        [] \<Rightarrow> None
      | i # _ \<Rightarrow> if length p \<le> length s then Some i else None)"

definition isZeroNumber :: "jsstring \<Rightarrow> bool" where
  \<comment> \<open>a number token with no digit but 0 before its exponent\<close>
  "isZeroNumber n \<longleftrightarrow> (\<forall>c \<in> set (takeWhile (\<lambda>c. c \<noteq> 101 \<and> c \<noteq> 69) n). c = 45 \<or> c = 46 \<or> c = 48)"

fun truthy :: "jsval \<Rightarrow> bool" where
  "truthy JUndefined = False"
| "truthy JNull = False"
| "truthy (JBool b) = b"
| "truthy (JNum n) = (\<not> isZeroNumber n)"
| "truthy (JStr s) = (s \<noteq> [])"
| "truthy (JArr xs) = True"
| "truthy (JObj ps) = True"

fun firstParse :: "jsstring \<Rightarrow> jsstring list \<Rightarrow> jsval option" where
  \<comment> \<open>the loop over the candidates: the first \<open>JSON.parse(fixedStr + suffix)\<close> that does
      not throw\<close>
  "firstParse fixedStr [] = None"
| "firstParse fixedStr (suffix # candidates) =
     (case JSONparse (fixedStr @ suffix) of
        Some v \<Rightarrow> Some v
      | None \<Rightarrow> firstParse fixedStr candidates)"

definition tryRepairJson :: "jsstring \<Rightarrow> jsval" where
  \<comment> \<open>\<open>JNull\<close> is the \<open>null\<close> the source returns\<close>
  "tryRepairJson jsonStr =
     (let lastRowEnd = lastIndexOf jsonStr (js ''],'');
          lastRowEndBracket = lastIndexOf jsonStr (js '']'');
          cutIndex = (case lastRowEnd of
                        Some i \<Rightarrow> Some (i + 1)
                      | None \<Rightarrow> (case lastRowEndBracket of Some i \<Rightarrow> Some (i + 1) | None \<Rightarrow> None))
      in case cutIndex of
           None \<Rightarrow> JNull
         | Some k \<Rightarrow>
             (let fixedStr = take k jsonStr in
              case firstParse fixedStr [js ''}}'', js '']}'', js '']]}''] of
                Some v \<Rightarrow> v
              | None \<Rightarrow> (case JSONparse (fixedStr @ js '']}'') of Some v \<Rightarrow> v | None \<Rightarrow> JNull)))"

definition truncatedMessage :: jsstring where
  "truncatedMessage = js ''JSON '' @ [35299, 26512, 22833, 25943] @ js '' (Truncated)''"


definition parseResponse :: "jsstring \<Rightarrow> thrown + jsval" where
  \<comment> \<open>\<open>callGeminiWithRetry\<close> from the text of the response on\<close>
  "parseResponse textResponse =
     (let jsonString = cleanResponse textResponse in
      case JSONparse jsonString of
        Some v \<Rightarrow> Inr v
      | None \<Rightarrow>
          (let repaired = tryRepairJson jsonString in
           if truthy repaired then Inr repaired else Inl (ErrorObj truncatedMessage)))"


section \<open>Numbers\<close>

text \<open>
  A number of the language is a double.  The text \<open>String\<close> gives to the number read
  from a JSON number token is computed exactly: the token is a decimal fraction, the
  double is the nearest one (ties to the even mantissa, \<open>Infinity\<close> from \<open>2 ^ 1024\<close> on),
  and its text has the fewest digits that read back to the same double, the closest ones
  if there is a choice, laid out as the language does.  A finite positive double is
  kept as a mantissa and a binary exponent.
\<close>

fun bitLength :: "nat \<Rightarrow> nat" where
  "bitLength n = (if n = 0 then 0 else Suc (bitLength (n div 2)))"

declare bitLength.simps [simp del]

datatype double = Finite nat int | Infinity

definition roundDouble :: "nat \<Rightarrow> nat \<Rightarrow> double" where
  \<comment> \<open>the double nearest to the positive fraction \<open>num / den\<close>: \<open>Finite m p\<close> is
      \<open>m * 2 ^ p\<close>, with \<open>m\<close> below \<open>2 ^ 53\<close> and \<open>p\<close> from \<open>-1074\<close> to \<open>971\<close>\<close>
  "roundDouble num den =
     (let e0 = int (bitLength num) - int (bitLength den);
          e = (if (if 0 \<le> e0 then den * 2 ^ nat e0 \<le> num else den \<le> num * 2 ^ nat (- e0))
               then e0 else e0 - 1);
          p = max (e - 52) (- 1074);
          n = (if 0 \<le> p then num else num * 2 ^ nat (- p));
          d = (if 0 \<le> p then den * 2 ^ nat p else den);
          m0 = n div d;
          r = n mod d;
          m = (if d < 2 * r \<or> (2 * r = d \<and> odd m0) then m0 + 1 else m0);
          m' = (if m = 2 ^ 53 then 2 ^ 52 else m);
          p' = (if m = 2 ^ 53 then p + 1 else p)
      in if 972 \<le> p' then Infinity else Finite m' p')"

function scaleCount :: "nat \<Rightarrow> nat \<Rightarrow> nat" where
  \<comment> \<open>how many times \<open>n\<close> is multiplied by 10 to reach \<open>d\<close>\<close>
  "scaleCount n d = (if n = 0 \<or> d \<le> n then 0 else Suc (scaleCount (10 * n) d))"
  by pat_completeness auto
termination
  by (relation "measure (\<lambda>(n, d). d - n)") auto

declare scaleCount.simps [simp del]

definition decimalExponent :: "nat \<Rightarrow> nat \<Rightarrow> int" where
  \<comment> \<open>the \<open>n\<close> with \<open>10 ^ (n - 1) \<le> num / den < 10 ^ n\<close>\<close>
  "decimalExponent num den =
     (if den \<le> num then int (length (natToString (num div den)))
      else 1 - int (scaleCount num den))"

definition digitsCandidate :: "nat \<Rightarrow> int \<Rightarrow> int \<Rightarrow> nat \<Rightarrow> (nat \<times> int) option" where
  \<comment> \<open>for the double \<open>m * 2 ^ p\<close> of decimal exponent \<open>n0\<close>: the \<open>k\<close> digits \<open>s\<close> and the
      exponent \<open>n\<close> such that \<open>s * 10 ^ (n - k)\<close> reads back to the double, the closest to
      it if two do (the even \<open>s\<close> if they are as close), or \<open>None\<close> if none does\<close>
  "digitsCandidate m p n0 k =
     (let xn = (if 0 \<le> p then m * 2 ^ nat p else m);
          xd = (if 0 \<le> p then 1 else 2 ^ nat (- p));
          sh = int k - n0;
          sn = (if 0 \<le> sh then xn * 10 ^ nat sh else xn);
          sd = (if 0 \<le> sh then xd else xd * 10 ^ nat (- sh));
          lo = sn div sd;
          fr = sn mod sd;
          back = (\<lambda>s. if sh \<le> 0 then roundDouble (s * 10 ^ nat (- sh)) 1
                       else roundDouble s (10 ^ nat sh));
          okLo = (0 < lo \<and> back lo = Finite m p);
          okHi = (back (lo + 1) = Finite m p);
          pick = (if okLo \<and> okHi then
                    (if 2 * fr < sd then Some lo
                     else if sd < 2 * fr then Some (lo + 1)
                     else if even lo then Some lo else Some (lo + 1))
                  else if okLo then Some lo
                  else if okHi then Some (lo + 1)
                  else None)
      in case pick of
           None \<Rightarrow> None
         | Some s \<Rightarrow> if s = 10 ^ k then Some (10 ^ (k - 1), n0 + 1) else Some (s, n0))"

fun shortestDigits :: "nat \<Rightarrow> nat \<Rightarrow> int \<Rightarrow> int \<Rightarrow> nat \<Rightarrow> nat \<times> int" where
  \<comment> \<open>the first candidate from \<open>k\<close> digits on; seventeen digits always read back\<close>
  "shortestDigits 0 m p n0 k = (0, 0)"
| "shortestDigits (Suc fuel) m p n0 k =
     (case digitsCandidate m p n0 k of
        Some r \<Rightarrow> r
      | None \<Rightarrow> shortestDigits fuel m p n0 (Suc k))"

definition formatDigits :: "nat \<Rightarrow> int \<Rightarrow> jsstring" where
  \<comment> \<open>the layout of the digits \<open>s\<close> with the decimal exponent \<open>n\<close>\<close>
  "formatDigits s n =
     (let d = natToString s;
          k = int (length d)
      in if k \<le> n \<and> n \<le> 21 then d @ replicate (nat (n - k)) 48
         else if 0 < n \<and> n \<le> 21 then take (nat n) d @ [46] @ drop (nat n) d
         else if - 6 < n \<and> n \<le> 0 then [48, 46] @ replicate (nat (- n)) 48 @ d
         else
           (let e = n - 1;
                sg = (if 0 < e then 43 else 45);
                ex = natToString (nat \<bar>e\<bar>)
            in if k = 1 then d @ [101, sg] @ ex
               else hd d # 46 # tl d @ [101, sg] @ ex))"

definition numberParts :: "jsstring \<Rightarrow> bool \<times> nat \<times> int" where
  \<comment> \<open>a number token as a sign, the digits \<open>m\<close> of its integer and fraction parts and a
      decimal exponent \<open>e\<close>: the token writes \<open>m * 10 ^ e\<close>\<close>
  "numberParts token =
     (let neg = (token \<noteq> [] \<and> hd token = 45);
          body = (if neg then tl token else token);
          mant = takeWhile (\<lambda>c. c \<noteq> 101 \<and> c \<noteq> 69) body;
          ex = drop 1 (dropWhile (\<lambda>c. c \<noteq> 101 \<and> c \<noteq> 69) body);
          whole = takeWhile isDigit mant;
          frac = drop 1 (dropWhile isDigit mant);
          e = (if ex \<noteq> [] \<and> hd ex = 45 then - int (digitsValue (filter isDigit ex))
               else int (digitsValue (filter isDigit ex)))
      in (neg, digitsValue (whole @ frac), e - int (length frac)))"

definition numberToString :: "jsstring \<Rightarrow> jsstring" where
  \<comment> \<open>\<open>String(x)\<close> for the number \<open>x\<close> that \<open>JSON.parse\<close> reads from the token\<close>
  "numberToString token =
     (case numberParts token of
        (neg, m, e) \<Rightarrow>
          if m = 0 then js ''0''
          else
            (case (if 0 \<le> e then roundDouble (m * 10 ^ nat e) 1
                   else roundDouble m (10 ^ nat (- e))) of
               Infinity \<Rightarrow> (if neg then js ''-Infinity'' else js ''Infinity'')
             | Finite mm p \<Rightarrow>
                 if mm = 0 then js ''0''
                 else
                   (case shortestDigits 17 mm p
                           (decimalExponent (if 0 \<le> p then mm * 2 ^ nat p else mm)
                              (if 0 \<le> p then 1 else 2 ^ nat (- p))) 1 of
                      (s, n) \<Rightarrow> (if neg then js ''-'' else []) @ formatDigits s n)))"

section \<open>The export: sanitizeGridData and downloadExcel\<close>

fun joinWith :: "jsstring \<Rightarrow> jsstring list \<Rightarrow> jsstring" where
  \<comment> \<open>\<open>Array.prototype.join\<close> on the texts of the elements\<close>
  "joinWith sep [] = []"
| "joinWith sep [x] = x"
| "joinWith sep (x # y # ys) = x @ sep @ joinWith sep (y # ys)"

fun jsString :: "jsval \<Rightarrow> jsstring option" where
  \<comment> \<open>\<open>String(v)\<close>; \<open>None\<close> is the \<open>TypeError\<close> of the conversion to a primitive.  An
      object that has an own property \<open>toString\<close> has no callable \<open>toString\<close> (a value
      read by \<open>JSON.parse\<close> is never a function) and the inherited \<open>valueOf\<close> gives back
      the object, so the conversion throws; every other object takes
      \<open>Object.prototype.toString\<close>.  An array joins the texts of its elements, the empty
      text for \<open>null\<close> and \<open>undefined\<close>, and throws if an element does.\<close>
  "jsString JUndefined = Some (js ''undefined'')"
| "jsString JNull = Some (js ''null'')"
| "jsString (JBool b) = Some (if b then js ''true'' else js ''false'')"
| "jsString (JNum n) = Some (numberToString n)"
| "jsString (JStr s) = Some s"
| "jsString (JArr xs) =
     map_option (joinWith (js '',''))
       (those (map (\<lambda>x. if x = JNull \<or> x = JUndefined then Some [] else jsString x) xs))"
| "jsString (JObj ps) =
     (if js ''toString'' \<in> fst ` set ps then None else Some (js ''[object Object]''))"

definition sanitizeCell :: "jsval \<Rightarrow> jsstring option" where
  "sanitizeCell cell = (if cell = JNull \<or> cell = JUndefined then Some [] else jsString cell)"

definition sanitizeRow :: "jsval \<Rightarrow> jsstring list option" where
  \<comment> \<open>the function given to \<open>rows.map\<close>\<close>
  "sanitizeRow row = (case row of JArr cells \<Rightarrow> those (map sanitizeCell cells) | _ \<Rightarrow> Some [])"

definition sanitizeGridData :: "jsval \<Rightarrow> jsstring list list option" where
  \<comment> \<open>\<open>None\<close> if the coercion of a cell throws\<close>
  "sanitizeGridData rows =
     (case rows of JArr rs \<Rightarrow> those (map sanitizeRow rs) | _ \<Rightarrow> Some [])"

definition numericKey :: "jsstring \<Rightarrow> nat" where
  \<comment> \<open>\<open>parseInt(k.replace(/\D/g, '')) || 0\<close>\<close>
  "numericKey k = (case parseInt (stripNonDigits k) of Some n \<Rightarrow> n | None \<Rightarrow> 0)"

definition sortedPages :: "jsobject \<Rightarrow> jsstring list" where
  \<comment> \<open>\<open>Object.keys(data).sort((a, b) => numA - numB)\<close>; the sort of the language is
      stable, as \<open>sort_key\<close> is\<close>
  "sortedPages data = sort_key numericKey (ownKeys data)"

definition mergePage :: "jsobject \<Rightarrow> jsstring list list option \<Rightarrow> jsstring \<Rightarrow> jsstring list list option" where
  \<comment> \<open>the body of the \<open>forEach\<close> of the merge mode; \<open>None\<close> once a page has thrown\<close>
  "mergePage data acc pageKey =
     (case acc of
        None \<Rightarrow> None
      | Some allRows \<Rightarrow>
          (case sanitizeGridData (getProp (JObj data) pageKey) of
             None \<Rightarrow> None
           | Some cleanRows \<Rightarrow> Some ((allRows @ cleanRows) @ [[]])))"

definition mergeRows :: "jsobject \<Rightarrow> jsstring list list option" where
  \<comment> \<open>\<open>allRows\<close> of the merge mode of \<open>downloadExcel\<close>, as given to \<open>aoa_to_sheet\<close>;
      \<open>None\<close> if a coercion throws, and then no sheet is written\<close>
  "mergeRows data = foldl (mergePage data) (Some []) (sortedPages data)"

section \<open>Notions of the specification\<close>

definition decimalString :: "int \<Rightarrow> jsstring" where
  \<comment> \<open>the decimal text of an integer\<close>
  "decimalString n = (if n < 0 then js ''-'' @ natToString (nat (- n)) else natToString (nat n))"

function digitRuns :: "jsstring \<Rightarrow> jsstring list" where
  \<comment> \<open>the maximal runs of consecutive decimal digits of a string, from left to right\<close>
  "digitRuns [] = []"
| "digitRuns (c # cs) =
     (if isDigit c then takeWhile isDigit (c # cs) # digitRuns (dropWhile isDigit cs)
      else digitRuns cs)"
  by pat_completeness auto
termination
  by (relation "measure length") (auto simp: length_dropWhile_le less_Suc_eq_le)

definition spec_longestDigitRun :: "jsstring \<Rightarrow> jsstring" where
  \<comment> \<open>the specification's words: the longest run of decimal digits of the key
      (the first of them, if several are as long)\<close>
  "spec_longestDigitRun s =
     foldl (\<lambda>best r. if length best < length r then r else best) [] (digitRuns s)"

text \<open>
  A page map as the specification has it, keys to grids of strings, and its JSON
  serialisation as \<open>JSON.stringify\<close> writes it: no white space, the keys in the order of
  the language, in strings an escape for the quote, the backslash, the control
  characters and the lone surrogates, every other code unit as it is.
\<close>

type_synonym pageGrid = "jsstring list list"
type_synonym pageDataMap = "(jsstring \<times> pageGrid) list"

definition gridValue :: "pageGrid \<Rightarrow> jsval" where
  "gridValue g = JArr (map (\<lambda>row. JArr (map JStr row)) g)"

definition mapValue :: "pageDataMap \<Rightarrow> jsval" where
  "mapValue m = JObj (map (\<lambda>(k, g). (k, gridValue g)) m)"

definition toHexDigit :: "nat \<Rightarrow> jschar" where
  "toHexDigit d = (if d < 10 then 48 + d else 87 + d)"

definition unicodeEscape :: "jschar \<Rightarrow> jsstring" where
  "unicodeEscape c =
     [92, 117, toHexDigit (c div 4096 mod 16), toHexDigit (c div 256 mod 16),
      toHexDigit (c div 16 mod 16), toHexDigit (c mod 16)]"

definition isLeadSurrogate :: "jschar \<Rightarrow> bool" where
  "isLeadSurrogate c \<longleftrightarrow> 55296 \<le> c \<and> c \<le> 56319"

definition isTrailSurrogate :: "jschar \<Rightarrow> bool" where
  "isTrailSurrogate c \<longleftrightarrow> 56320 \<le> c \<and> c \<le> 57343"

definition quoteOne :: "jschar \<Rightarrow> jsstring" where
  "quoteOne c =
     (if c = 8 then [92, 98] else if c = 9 then [92, 116] else if c = 10 then [92, 110]
      else if c = 12 then [92, 102] else if c = 13 then [92, 114]
      else if c = 34 then [92, 34] else if c = 92 then [92, 92]
      else if c < 32 \<or> isTrailSurrogate c then unicodeEscape c
      else [c])"

fun quoteChars :: "jsstring \<Rightarrow> jsstring" where
  "quoteChars [] = []"
| "quoteChars (c # cs) =
     (if isLeadSurrogate c then
        (case cs of
           [] \<Rightarrow> unicodeEscape c
         | d # ds \<Rightarrow>
             if isTrailSurrogate d then c # d # quoteChars ds
             else unicodeEscape c @ quoteChars cs)
      else quoteOne c @ quoteChars cs)"

definition quoteJSON :: "jsstring \<Rightarrow> jsstring" where
  "quoteJSON s = [34] @ quoteChars s @ [34]"

definition stringifyRow :: "jsstring list \<Rightarrow> jsstring" where
  "stringifyRow row = js ''['' @ joinWith (js '','') (map quoteJSON row) @ js '']''"

definition stringifyGrid :: "pageGrid \<Rightarrow> jsstring" where
  "stringifyGrid g = js ''['' @ joinWith (js '','') (map stringifyRow g) @ js '']''"

definition stringify :: "pageDataMap \<Rightarrow> jsstring" where
  "stringify m =
     js ''{'' @
     joinWith (js '','')
       (map (\<lambda>k. quoteJSON k @ js '':'' @
                  stringifyGrid (case map_of m k of Some g \<Rightarrow> g | None \<Rightarrow> []))
          (ownKeys (map (\<lambda>(k, g). (k, gridValue g)) m))) @
     js ''}''"


section \<open>Properties of the batch loop\<close>

lemma window_indices: "map (\<lambda>j. i + j) [0..<n] = [i..<i + n]"
  by (induction n) auto

lemma window_at:
  assumes "i < N"
  shows "map (\<lambda>j. i + j) [0..<min (i + BATCH_SIZE) N - (i + 1) + 1] = [i..<min (i + 3) N]"
proof -
  have "min (i + BATCH_SIZE) N - (i + 1) + 1 = min (i + 3) N - i"
    using assms unfolding BATCH_SIZE_def by arith
  moreover have "i + (min (i + 3) N - i) = min (i + 3) N"
    using assms by arith
  ultimately show ?thesis
    by (simp only: window_indices)
qed

lemma windows_step:
  "i < N \<Longrightarrow> windows N i = [i..<min (i + 3) N] # windows N (i + 3)"
  by (subst windows.simps) (simp only: Let_def window_at if_True, simp only: BATCH_SIZE_def)

lemma windows_stop: "\<not> i < N \<Longrightarrow> windows N i = []"
  by (subst windows.simps) simp

lemma windows_length: "length (windows N i) = (N - i + 2) div 3"
proof (induction N i rule: windows.induct)
  case (1 N i)
  show ?case
  proof (cases "i < N")
    case True
    have "length (windows N i) = Suc (length (windows N (i + BATCH_SIZE)))"
      using True by (subst windows.simps) (simp add: Let_def)
    also have "\<dots> = Suc ((N - (i + 3) + 2) div 3)"
      using "1.IH" [OF True refl refl] by (simp add: BATCH_SIZE_def)
    also have "\<dots> = (N - i + 2) div 3"
      using True by arith
    finally show ?thesis .
  next
    case False
    then show ?thesis by (subst windows.simps) simp
  qed
qed

lemma windows_concat: "concat (windows N i) = [i..<N]"
proof (induction N i rule: windows.induct)
  case (1 N i)
  show ?case
  proof (cases "i < N")
    case True
    let ?e = "min (i + 3) N"
    have "concat (windows N i) = [i..<?e] @ concat (windows N (i + BATCH_SIZE))"
      using True by (simp only: windows_step concat.simps BATCH_SIZE_def)
    also have "concat (windows N (i + BATCH_SIZE)) = [i + 3..<N]"
      using "1.IH" [OF True refl refl] by (simp add: BATCH_SIZE_def)
    also have "[i..<?e] @ [i + 3..<N] = [i..<N]"
    proof (cases "i + 3 \<le> N")
      case True
      then have "[i..<N] = [i..<i + 3] @ [i + 3..<N]"
        using upt_add_eq_append [of i "i + 3" "N - (i + 3)"] by simp
      with True show ?thesis by (simp only: min_def if_True)
    next
      case False
      then show ?thesis by (simp add: min_def)
    qed
    finally show ?thesis .
  next
    case False
    then show ?thesis by (subst windows.simps) simp
  qed
qed

lemma windows_shape:
  "w \<in> set (windows N i) \<Longrightarrow> \<exists>s. i \<le> s \<and> s < N \<and> w = [s..<min (s + 3) N]"
proof (induction N i rule: windows.induct)
  case (1 N i)
  show ?case
  proof (cases "i < N")
    case True
    have "windows N i = [i..<min (i + 3) N] # windows N (i + BATCH_SIZE)"
      using True by (simp only: windows_step BATCH_SIZE_def)
    with "1.prems" consider "w = [i..<min (i + 3) N]" | "w \<in> set (windows N (i + BATCH_SIZE))"
      by auto
    then show ?thesis
    proof cases
      case 1
      then show ?thesis using True by blast
    next
      case 2
      from "1.IH" [OF True refl refl 2] obtain s
        where "i + 3 \<le> s" "s < N" "w = [s..<min (s + 3) N]"
        by (auto simp: BATCH_SIZE_def)
      then have "i \<le> s \<and> s < N \<and> w = [s..<min (s + 3) N]" by simp
      then show ?thesis ..
    qed
  next
    case False
    with "1.prems" show ?thesis by (subst (asm) windows.simps) simp
  qed
qed


lemma windows_nth:
  "k < length (windows N i) \<Longrightarrow> windows N i ! k = [i + 3 * k..<min (i + 3 * k + 3) N]"
proof (induction k arbitrary: i)
  case 0
  then have "i < N" using windows_stop [of i N] by (cases "i < N") auto
  then show ?case by (simp only: windows_step) simp
next
  case (Suc k)
  then have lt: "i < N" using windows_stop [of i N] by (cases "i < N") auto
  with Suc.prems have "k < length (windows N (i + 3))"
    by (simp only: windows_step) simp
  from Suc.IH [OF this] have "windows N (i + 3) ! k = [i + 3 + 3 * k..<min (i + 3 + 3 * k + 3) N]" .
  moreover have "i + 3 + 3 * k = i + 3 * Suc k" by simp
  ultimately show ?case using lt by (simp only: windows_step nth_Cons_Suc)
qed

lemma extractsOf_append: "extractsOf (xs @ ys) = extractsOf xs @ extractsOf ys"
  by (induction xs rule: extractsOf.induct) auto

lemma batchLoop_step:
  assumes "i < N"
  shows "batchLoop call hp N i evs agg =
     (let evs2 = (if hp then evs @ [Progress (progressMessage (i + 1) (min (i + 3) N) N)] else evs)
                   @ [Extract [i..<min (i + 3) N]]
      in case tryBatch call i [i..<min (i + 3) N] agg of
           Inl batchError \<Rightarrow> (evs2, Inl (failureMessage (i + 1) (min (i + 3) N) batchError))
         | Inr agg' \<Rightarrow> batchLoop call hp N (i + 3) evs2 agg')"
  using assms
  by (subst batchLoop.simps) (simp only: Let_def window_at if_True, simp only: BATCH_SIZE_def)

lemma batchLoop_stop: "\<not> i < N \<Longrightarrow> batchLoop call hp N i evs agg = (evs, Inr agg)"
  by (subst batchLoop.simps) simp

lemma batchLoop_extracts:
  "batchLoop call hp N i evs agg = (evs', Inr r) \<Longrightarrow>
     extractsOf evs' = extractsOf evs @ windows N i"
proof (induction N i arbitrary: evs agg rule: windows.induct)
  case (1 N i)
  show ?case
  proof (cases "i < N")
    case True
    let ?evs2 = "(if hp then evs @ [Progress (progressMessage (i + 1) (min (i + 3) N) N)] else evs)
                   @ [Extract [i..<min (i + 3) N]]"
    from "1.prems" True obtain agg' where
      run: "batchLoop call hp N (i + 3) ?evs2 agg' = (evs', Inr r)"
      by (simp only: batchLoop_step Let_def split: sum.splits) auto
    have "extractsOf evs' = extractsOf ?evs2 @ windows N (i + 3)"
      using "1.IH" [OF True refl refl] run by (simp only: BATCH_SIZE_def)
    also have "extractsOf ?evs2 = extractsOf evs @ [[i..<min (i + 3) N]]"
      by (simp add: extractsOf_append)
    finally show ?thesis using True by (simp only: windows_step) simp
  next
    case False
    with "1.prems" show ?thesis by (simp add: batchLoop_stop windows_stop)
  qed
qed

text \<open>
  Claim C1.  For a document of \<open>N\<close> pages the loop goes through \<open>ceil (N / 3)\<close> windows
  (\<open>(N + 2) div 3\<close>); window \<open>k\<close> is the index range from \<open>3 * k\<close> up to, and without,
  \<open>min (3 * k + 3) N\<close>, so the windows are consecutive, do not overlap, only the last may
  be shorter than 3, and together they are the range from 0 up to \<open>N\<close>.  A run that returns
  a map has called the extraction on exactly these windows, in this order.
\<close>

theorem batch_windows_partition:
  "length (windows N 0) = (N + 2) div 3 \<and>
   (\<forall>k < (N + 2) div 3. windows N 0 ! k = [3 * k..<min (3 * k + 3) N]) \<and>
   concat (windows N 0) = [0..<N] \<and>
   (processFile apiKey (Some N) call hp = (evs, Inr result) \<longrightarrow> extractsOf evs = windows N 0)"
proof (intro conjI allI impI)
  show len: "length (windows N 0) = (N + 2) div 3"
    using windows_length [of N 0] by simp
  show "windows N 0 ! k = [3 * k..<min (3 * k + 3) N]" if "k < (N + 2) div 3" for k
    using that windows_nth [of k N 0] len by simp
  show "concat (windows N 0) = [0..<N]"
    by (rule windows_concat)
  show "extractsOf evs = windows N 0" if "processFile apiKey (Some N) call hp = (evs, Inr result)"
  proof -
    from that have "batchLoop call hp N 0 [] [] = (evs, Inr result)"
      by (simp add: processFile_def split: if_splits)
    from batchLoop_extracts [OF this] show ?thesis by simp
  qed
qed

theorem batch_windows_partition_witness:
  "length (windows 5 0) = 2 \<and> windows 5 0 ! 0 = [0, 1, 2] \<and> windows 5 0 ! 1 = [3, 4] \<and>
   concat (windows 5 0) = [0, 1, 2, 3, 4] \<and>
   extractsOf (fst (processFile (js ''k'') (Some 5) (\<lambda>ps. Inr (JObj [])) False)) = windows 5 0"
proof -
  obtain evs r where run: "processFile (js ''k'') (Some 5) (\<lambda>ps. Inr (JObj [])) False = (evs, r)"
    by (cases "processFile (js ''k'') (Some 5) (\<lambda>ps. Inr (JObj [])) False")
  have r: "r = Inr []"
    using run by (simp add: processFile_def js_def batchLoop_step batchLoop_stop tryBatch_def
        mergeBatch_def ownKeys_def)
  note t = batch_windows_partition [of 5 "js ''k''" "\<lambda>ps. Inr (JObj [])" False evs "[]"]
  have "(2::nat) < 5" by simp
  show ?thesis using t run r by (simp add: upt_conv_Cons)
qed

lemma windows_nonempty: "k < length (windows N i) \<Longrightarrow> i < N"
  using windows_stop [of i N] by (cases "i < N") auto

lemma batchLoop_first_failure:
  assumes "k < length (windows N i)"
    and "\<forall>j<k. \<exists>v ks. call (windows N i ! j) = Inr v \<and> objectKeys v = Some ks"
    and "call (windows N i ! k) = Inl e"
  shows "snd (batchLoop call hp N i evs agg) =
           Inl (failureMessage (i + 3 * k + 1) (min (i + 3 * k + 3) N) e) \<and>
         extractsOf (fst (batchLoop call hp N i evs agg)) =
           extractsOf evs @ take (Suc k) (windows N i)"
  using assms
proof (induction k arbitrary: i evs agg)
  case 0
  have lt: "i < N" using "0.prems"(1) by (rule windows_nonempty)
  have w: "windows N i = [i..<min (i + 3) N] # windows N (i + 3)"
    using lt by (rule windows_step)
  have "call [i..<min (i + 3) N] = Inl e"
    using "0.prems"(3) by (simp add: w)
  then have "tryBatch call i [i..<min (i + 3) N] agg = Inl e"
    by (simp add: tryBatch_def)
  then show ?case
    using lt by (simp add: batchLoop_step [OF lt] Let_def w extractsOf_append)
next
  case (Suc k)
  have lt: "i < N" using Suc.prems(1) by (rule windows_nonempty)
  have w: "windows N i = [i..<min (i + 3) N] # windows N (i + 3)"
    using lt by (rule windows_step)
  let ?evs2 = "(if hp then evs @ [Progress (progressMessage (i + 1) (min (i + 3) N) N)] else evs)
                   @ [Extract [i..<min (i + 3) N]]"
  from Suc.prems(2) have "\<exists>v ks. call (windows N i ! 0) = Inr v \<and> objectKeys v = Some ks"
    by blast
  then obtain agg' where t: "tryBatch call i [i..<min (i + 3) N] agg = Inr agg'"
    by (auto simp: tryBatch_def w)
  have step: "batchLoop call hp N i evs agg = batchLoop call hp N (i + 3) ?evs2 agg'"
    by (simp add: batchLoop_step [OF lt] Let_def t)
  have 1: "k < length (windows N (i + 3))"
    using Suc.prems(1) by (simp add: w)
  have 2: "\<forall>j<k. \<exists>v ks. call (windows N (i + 3) ! j) = Inr v \<and> objectKeys v = Some ks"
  proof (intro allI impI)
    fix j assume "j < k"
    then have "Suc j < Suc k" by simp
    with Suc.prems(2) have "\<exists>v ks. call (windows N i ! Suc j) = Inr v \<and> objectKeys v = Some ks"
      by blast
    then show "\<exists>v ks. call (windows N (i + 3) ! j) = Inr v \<and> objectKeys v = Some ks"
      by (simp add: w)
  qed
  have 3: "call (windows N (i + 3) ! k) = Inl e"
    using Suc.prems(3) by (simp add: w)
  have a: "i + 3 + 3 * k = i + 3 * Suc k" by simp
  from Suc.IH [OF 1 2 3, of ?evs2 agg'] show ?case
    unfolding step a by (simp add: w extractsOf_append)
qed


text \<open>
  Claim C3.  When the extraction of window \<open>k\<close> throws and the earlier windows gave results,
  the run ends with an error and no map; the extraction was called on the windows up to
  \<open>k\<close> and on no later one; the message of the error has the 1-based range
  \<open>3 * k + 1\<close>-\<open>min (3 * k + 3) N\<close> of the failing window in it and ends with the message
  of the cause.
\<close>

theorem batch_failure_aborts:
  assumes "apiKey \<noteq> []"
    and "k < length (windows N 0)"
    and "\<forall>j<k. \<exists>v ks. call (windows N 0 ! j) = Inr v \<and> objectKeys v = Some ks"
    and "call (windows N 0 ! k) = Inl e"
  shows "\<exists>evs msg. processFile apiKey (Some N) call hp = (evs, Inl msg) \<and>
           extractsOf evs = take (Suc k) (windows N 0) \<and>
           msg = failureMessage (3 * k + 1) (min (3 * k + 3) N) e \<and>
           (\<forall>m. e = ErrorObj m \<longrightarrow>
              (\<exists>pre mid. msg = pre @ natToString (3 * k + 1) @ js ''-'' @
                                  natToString (min (3 * k + 3) N) @ mid @ m))"
proof -
  let ?run = "batchLoop call hp N 0 [] []"
  let ?msg = "failureMessage (3 * k + 1) (min (3 * k + 3) N) e"
  from batchLoop_first_failure [OF assms(2-4), of hp "[]" "[]"]
  have "snd ?run = Inl ?msg" and "extractsOf (fst ?run) = take (Suc k) (windows N 0)"
    by simp_all
  moreover have "processFile apiKey (Some N) call hp = (fst ?run, snd ?run)"
    using assms(1) by (simp add: processFile_def)
  moreover have "\<exists>pre mid. ?msg = pre @ natToString (3 * k + 1) @ js ''-'' @
                                  natToString (min (3 * k + 3) N) @ mid @ m"
    if "e = ErrorObj m" for m
  proof -
    have "?msg = ([31532] @ js '' '') @ natToString (3 * k + 1) @ js ''-'' @
                 natToString (min (3 * k + 3) N) @
                 (js '' '' @ [38913, 34389, 29702, 22833, 25943] @ js '': '') @ m"
      using that by (simp add: failureMessage_def)
    then show ?thesis by blast
  qed
  ultimately show ?thesis by auto
qed

theorem batch_failure_aborts_witness:
  "processFile (js ''k'') (Some 5)
     (\<lambda>ps. if ps = [0, 1, 2] then Inr (JObj [(js ''1'', JArr [])]) else Inl (ErrorObj (js ''boom'')))
     False =
   ([Extract [0, 1, 2], Extract [3, 4]],
    Inl ([31532] @ js '' 4-5 '' @ [38913, 34389, 29702, 22833, 25943] @ js '': boom''))"
proof -
  let ?call = "\<lambda>ps. if ps = [0, 1, 2] then Inr (JObj [(js ''1'', JArr [])])
                     else Inl (ErrorObj (js ''boom'')) :: thrown + jsval"
  have w: "windows 5 0 = [[0, 1, 2], [3, 4]]"
    by (simp add: windows_step windows_stop upt_conv_Cons)
  have 1: "js ''k'' \<noteq> []" by (simp add: js_def)
  have 2: "1 < length (windows 5 0)" by (simp add: w)
  have 3: "\<forall>j<1. \<exists>v ks. ?call (windows 5 0 ! j) = Inr v \<and> objectKeys v = Some ks"
    by (simp add: w)
  have 4: "?call (windows 5 0 ! 1) = Inl (ErrorObj (js ''boom''))"
    by (simp add: w)
  have n: "natToString 4 = js ''4''" "natToString 5 = js ''5''"
    by (simp_all add: natToString.simps js_def)
  from batch_failure_aborts [OF 1 2 3 4, of False] obtain evs msg where
    run: "processFile (js ''k'') (Some 5) ?call False = (evs, Inl msg)"
    and ex: "extractsOf evs = take (Suc 1) (windows 5 0)"
    and msg: "msg = failureMessage (3 * 1 + 1) (min (3 * 1 + 3) 5) (ErrorObj (js ''boom''))"
    by blast
  have "evs = [Extract [0, 1, 2], Extract [3, 4]]"
    using run by (simp add: processFile_def 1 batchLoop_step batchLoop_stop tryBatch_def
        upt_conv_Cons numeral_2_eq_2)
  moreover have "msg = [31532] @ js '' 4-5 '' @ [38913, 34389, 29702, 22833, 25943] @ js '': boom''"
    using msg by (simp add: failureMessage_def n) (simp add: js_def)
  ultimately show ?thesis using run by simp
qed

text \<open>
  Claim C10.  For a document of 0 pages the run returns the empty map and does nothing
  else: no call of the extraction and no progress message.
\<close>

theorem empty_document:
  "apiKey \<noteq> [] \<Longrightarrow> processFile apiKey (Some 0) call hp = ([], Inr [])"
  by (simp add: processFile_def batchLoop_stop)

theorem empty_document_witness:
  "js ''k'' \<noteq> [] \<and> processFile (js ''k'') (Some 0) (\<lambda>ps. Inl NonError) True = ([], Inr [])"
proof -
  have k: "js ''k'' \<noteq> []" by (simp add: js_def)
  from empty_document [OF k] k show ?thesis by simp
qed

lemma natToString_digits: "list_all isDigit (natToString n)"
proof (induction n rule: natToString.induct)
  case (1 n)
  show ?case
  proof (cases "n < 10")
    case True
    then show ?thesis by (subst natToString.simps) (simp add: isDigit_def)
  next
    case False
    have "n mod 10 < 10" by simp
    then have "isDigit (48 + n mod 10)" unfolding isDigit_def by linarith
    with "1.IH" False show ?thesis by (subst natToString.simps) simp
  qed
qed

lemma digitsValue_snoc: "digitsValue (ds @ [d]) = 10 * digitsValue ds + (d - 48)"
  by (simp add: digitsValue_def)

lemma digitsValue_natToString: "digitsValue (natToString n) = n"
proof (induction n rule: natToString.induct)
  case (1 n)
  show ?case
  proof (cases "n < 10")
    case True
    then show ?thesis by (subst natToString.simps) (simp add: digitsValue_def)
  next
    case False
    with "1.IH" show ?thesis
      by (subst natToString.simps) (simp add: digitsValue_snoc)
  qed
qed

lemma natToString_nonempty: "natToString n \<noteq> []"
  by (subst natToString.simps) simp

text \<open>
  Claim C2, as amended.  For a key with at least one decimal digit, the loop stores the
  page under the decimal text of \<open>w + localNumber\<close>, where \<open>localNumber\<close> is the number
  written by all the decimal digits of the key, in their order, every other character
  being dropped, as long as \<open>w + localNumber\<close> is a number the source holds exactly.
\<close>

theorem toGlobalKey_numeric:
  assumes "\<exists>c \<in> set localKey. isDigit c"
    and "w + digitsValue (stripNonDigits localKey) \<le> MAX_SAFE_INTEGER"
  shows "toGlobalKey w localKey = natToString (w + digitsValue (stripNonDigits localKey)) \<and>
         list_all isDigit (toGlobalKey w localKey) \<and>
         digitsValue (toGlobalKey w localKey) = w + digitsValue (filter isDigit localKey)"
proof -
  from assms(1) have "stripNonDigits localKey \<noteq> []"
    by (auto simp: stripNonDigits_def filter_empty_conv)
  then have "toGlobalKey w localKey = natToString (w + digitsValue (stripNonDigits localKey))"
    by (simp add: toGlobalKey_def parseInt_def)
  then show ?thesis
    by (simp add: natToString_digits digitsValue_natToString stripNonDigits_def)
qed

theorem toGlobalKey_numeric_witness:
  "toGlobalKey 6 (js ''3'') = js ''9'' \<and> toGlobalKey 3 (js ''page 2'') = js ''5''"
proof -
  have d: "\<exists>c \<in> set (js ''3''). isDigit c" "\<exists>c \<in> set (js ''page 2''). isDigit c"
    by (simp_all add: js_def isDigit_def)
  have v: "digitsValue (stripNonDigits (js ''3'')) = 3"
    "digitsValue (stripNonDigits (js ''page 2'')) = 2"
    by (simp_all add: js_def isDigit_def stripNonDigits_def digitsValue_def)
  have b: "6 + digitsValue (stripNonDigits (js ''3'')) \<le> MAX_SAFE_INTEGER"
    "3 + digitsValue (stripNonDigits (js ''page 2'')) \<le> MAX_SAFE_INTEGER"
    by (simp_all add: v MAX_SAFE_INTEGER_def)
  have n: "natToString 9 = js ''9''" "natToString 5 = js ''5''"
    by (simp_all add: natToString.simps js_def)
  from toGlobalKey_numeric [OF d(1) b(1)] toGlobalKey_numeric [OF d(2) b(2)]
  show ?thesis by (simp add: v n)
qed

theorem toGlobalKey_longest_run_counterexample:
  "toGlobalKey 0 (js ''1a23'') = js ''123'' \<and>
   natToString (0 + digitsValue (spec_longestDigitRun (js ''1a23''))) = js ''23'' \<and>
   toGlobalKey 0 (js ''1a23'') \<noteq>
     natToString (0 + digitsValue (spec_longestDigitRun (js ''1a23'')))"
  by code_simp


lemma decimalString_chars: "c \<in> set (decimalString n) \<Longrightarrow> c = 45 \<or> isDigit c"
  using natToString_digits [of "nat n"] natToString_digits [of "nat (- n)"]
  by (auto simp: decimalString_def js_def list_all_iff split: if_splits)

text \<open>
  Claim C6.  For a key with no decimal digit, the loop stores the page under the key
  followed by \<open>_batch_\<close> and the 1-based first page \<open>w + 1\<close> of the window; this key is the
  decimal text of no integer.
\<close>

theorem toGlobalKey_fallback:
  assumes "\<forall>c \<in> set localKey. \<not> isDigit c"
  shows "toGlobalKey w localKey = localKey @ js ''_batch_'' @ natToString (w + 1) \<and>
         (\<forall>n. toGlobalKey w localKey \<noteq> decimalString n)"
proof -
  from assms have "stripNonDigits localKey = []"
    by (simp add: stripNonDigits_def filter_empty_conv)
  then have eq: "toGlobalKey w localKey = localKey @ js ''_batch_'' @ natToString (w + 1)"
    by (simp add: toGlobalKey_def parseInt_def)
  have in_key: "95 \<in> set (toGlobalKey w localKey)"
    by (simp add: eq js_def)
  have "toGlobalKey w localKey \<noteq> decimalString n" for n
  proof
    assume "toGlobalKey w localKey = decimalString n"
    with in_key have "95 \<in> set (decimalString n)" by simp
    from decimalString_chars [OF this] show False by (simp add: isDigit_def)
  qed
  with eq show ?thesis by blast
qed

theorem toGlobalKey_fallback_witness:
  "toGlobalKey 0 (js ''page-x'') = js ''page-x_batch_1'' \<and>
   (\<forall>n. js ''page-x_batch_1'' \<noteq> decimalString n)"
proof -
  have k: "\<forall>c \<in> set (js ''page-x''). \<not> isDigit c"
    by (simp add: js_def isDigit_def)
  have n: "js ''page-x'' @ js ''_batch_'' @ natToString (0 + 1) = js ''page-x_batch_1''"
    by (simp add: natToString.simps js_def)
  from toGlobalKey_fallback [OF k, of 0] show ?thesis
    unfolding n by metis
qed

lemma mergePage_None: "foldl (mergePage data) None ks = None"
  by (induction ks) (simp_all add: mergePage_def)

lemma mergeRows_fold:
  "foldl (mergePage data) (Some acc) ks =
   map_option (\<lambda>blocks. acc @ concat blocks)
     (those (map (\<lambda>k. map_option (\<lambda>rows. rows @ [[]])
                         (sanitizeGridData (getProp (JObj data) k))) ks))"
proof (induction ks arbitrary: acc)
  case Nil
  then show ?case by simp
next
  case (Cons k ks)
  show ?case
  proof (cases "sanitizeGridData (getProp (JObj data) k)")
    case None
    then have "mergePage data (Some acc) k = None"
      by (simp add: mergePage_def del: getProp.simps)
    with None show ?thesis
      by (simp add: mergePage_None del: getProp.simps)
  next
    case (Some rows)
    then have "mergePage data (Some acc) k = Some ((acc @ rows) @ [[]])"
      by (simp add: mergePage_def del: getProp.simps)
    with Some show ?thesis
      by (simp add: Cons.IH option.map_comp comp_def del: getProp.simps)
  qed
qed

lemma mergeRows_blocks:
  "mergeRows data =
   map_option concat
     (those (map (\<lambda>k. map_option (\<lambda>rows. rows @ [[]])
                         (sanitizeGridData (getProp (JObj data) k))) (sortedPages data)))"
  unfolding mergeRows_def mergeRows_fold by simp

lemma sortedPages_sorted:
  "sorted (map numericKey (sortedPages data)) \<and> set (sortedPages data) = set (ownKeys data)"
  by (simp add: sortedPages_def)

lemma ownKeys_set: "set (ownKeys data) = fst ` set data"
  by (auto simp: ownKeys_def)

lemma numericKey_10_9: "numericKey (js ''9'') < numericKey (js ''10'')"
  by (simp add: numericKey_def parseInt_def stripNonDigits_def js_def isDigit_def digitsValue_def)

text \<open>
  Claim C8.  In merge mode the pages come in the order of their numeric key, page 10
  after page 9; the source appends a blank row after every page, the last one too, so
  two pages give two blank rows, the second one after the last page, where the claim
  has a single blank row between the pages.
\<close>

theorem mergeRows_trailing_blank_row:
  "mergeRows [(js ''10'', JArr [JArr [JStr (js ''ten'')]]),
              (js ''9'', JArr [JArr [JStr (js ''nine'')]])] =
   Some [[js ''nine''], [], [js ''ten''], []]"
proof -
  let ?data = "[(js ''10'', JArr [JArr [JStr (js ''ten'')]]),
                (js ''9'', JArr [JArr [JStr (js ''nine'')]])]"
  have i: "isArrayIndex (js ''10'')" "isArrayIndex (js ''9'')"
    by (simp_all add: isArrayIndex_def js_def isDigit_def digitsValue_def)
  have v: "digitsValue (js ''10'') = 10" "digitsValue (js ''9'') = 9"
    by (simp_all add: js_def digitsValue_def)
  have k: "ownKeys ?data = [js ''9'', js ''10'']"
    by (simp add: ownKeys_def i v)
  have n: "numericKey (js ''9'') = 9" "numericKey (js ''10'') = 10"
    by (simp_all add: numericKey_def parseInt_def stripNonDigits_def js_def isDigit_def
        digitsValue_def)
  have s: "sortedPages ?data = [js ''9'', js ''10'']"
    by (simp add: sortedPages_def k n)
  have ne: "js ''10'' \<noteq> js ''9''" "js ''9'' \<noteq> js ''10''" by (simp_all add: js_def)
  show ?thesis
    by (simp add: mergeRows_def mergePage_def s sanitizeGridData_def sanitizeRow_def
        sanitizeCell_def ne)
qed

lemma those_Some_nth:
  assumes "those xs = Some ys"
  shows "length ys = length xs \<and> (\<forall>i<length xs. xs ! i = Some (ys ! i))"
  using assms
proof (induction xs arbitrary: ys)
  case Nil
  then show ?case by simp
next
  case (Cons x xs)
  from Cons.prems obtain y zs where x: "x = Some y" and zs: "those xs = Some zs"
    and ys: "ys = y # zs"
    by (auto split: option.splits)
  from Cons.IH [OF zs] have l: "length zs = length xs"
    and n: "\<And>i. i < length xs \<Longrightarrow> xs ! i = Some (zs ! i)" by simp_all
  show ?case
  proof (intro conjI allI impI)
    show "length ys = length (x # xs)" using l ys by simp
    fix i assume "i < length (x # xs)"
    then show "(x # xs) ! i = Some (ys ! i)"
      using x ys n by (cases i) simp_all
  qed
qed

lemma those_map_None: "those (map f xs) = None \<longleftrightarrow> (\<exists>x\<in>set xs. f x = None)"
  by (induction xs) (auto split: option.splits)

lemma jsString_scalar:
  "jsString JUndefined \<noteq> None" "jsString JNull \<noteq> None" "jsString (JBool b) \<noteq> None"
  "jsString (JNum n) \<noteq> None" "jsString (JStr s) \<noteq> None"
  by simp_all

lemma jsString_throws_object:
  "jsString (JObj ps) = None \<longleftrightarrow> js ''toString'' \<in> fst ` set ps"
  by simp

lemma jsString_throws_array:
  "jsString (JArr xs) = None \<longleftrightarrow>
   (\<exists>x\<in>set xs. x \<noteq> JNull \<and> x \<noteq> JUndefined \<and> jsString x = None)"
  by (auto simp: those_map_None)

lemma sanitizeRow_throws:
  "sanitizeRow row = None \<longleftrightarrow>
   (\<exists>cells. row = JArr cells \<and> (\<exists>c\<in>set cells. c \<noteq> JNull \<and> c \<noteq> JUndefined \<and> jsString c = None))"
  by (cases row) (auto simp: sanitizeRow_def sanitizeCell_def those_map_None)

lemma sanitizeGridData_throws:
  "sanitizeGridData rows = None \<longleftrightarrow>
   (\<exists>rs cells c. rows = JArr rs \<and> JArr cells \<in> set rs \<and> c \<in> set cells \<and>
      c \<noteq> JNull \<and> c \<noteq> JUndefined \<and> jsString c = None)"
proof (cases rows)
  case (JArr rs)
  have "those (map sanitizeRow rs) = None \<longleftrightarrow> (\<exists>row\<in>set rs. sanitizeRow row = None)"
    by (rule those_map_None)
  then show ?thesis
    using JArr by (auto simp: sanitizeGridData_def sanitizeRow_throws)
qed (simp_all add: sanitizeGridData_def)

lemma numberParts_1_50: "numberParts (js ''1.50'') = (False, 150, - 2)"
  by (simp add: numberParts_def js_def isDigit_def digitsValue_def Let_def)

lemma bitLength_150: "bitLength 150 = 8" "bitLength 100 = 7"
  by (simp_all add: bitLength.simps)

lemma roundDouble_1_50: "roundDouble 150 100 = Finite 6755399441055744 (- 52)"
  by (simp add: roundDouble_def bitLength_150 Let_def)



lemma numberToString_1_50: "numberToString (js ''1.50'') = js ''1.5''"
proof -
  have b: "bitLength (Suc 0) = 1" "bitLength 2 = 2" "bitLength 15 = 4" "bitLength 16 = 5" "bitLength 10 = 4"
    by (simp_all add: bitLength.simps)
  have r: "roundDouble (Suc 0) (Suc 0) = Finite 4503599627370496 (- 52)"
    "roundDouble (Suc (Suc 0)) (Suc 0) = Finite 4503599627370496 (- 51)"
    "roundDouble 15 10 = Finite 6755399441055744 (- 52)"
    "roundDouble 16 10 = Finite 7205759403792794 (- 52)"
    by (simp_all add: roundDouble_def b Let_def numeral_2_eq_2 [symmetric] del: One_nat_def)
  have d: "decimalExponent 6755399441055744 4503599627370496 = 1"
    by (simp add: decimalExponent_def natToString.simps)
  have c1: "digitsCandidate 6755399441055744 (- 52) 1 1 = None"
    by (simp add: digitsCandidate_def Let_def r)
  have c2: "digitsCandidate 6755399441055744 (- 52) 1 2 = Some (15, 1)"
    by (simp add: digitsCandidate_def Let_def r)
  have s: "shortestDigits 17 6755399441055744 (- 52) 1 1 = (15, 1)"
  proof -
    have "shortestDigits (Suc (Suc 15)) 6755399441055744 (- 52) 1 1 = (15, 1)"
      by (simp only: shortestDigits.simps c1 c2 option.case Suc_1)
    then show ?thesis by simp
  qed
  have f: "formatDigits 15 1 = js ''1.5''"
    by (simp add: formatDigits_def natToString.simps Let_def js_def)
  show ?thesis
    by (simp add: numberToString_def numberParts_1_50 roundDouble_1_50 s f d del: One_nat_def)
qed

lemma sanitizeGridData_toString_throws:
  "sanitizeGridData (JArr [JArr [JStr (js ''A''), JObj [(js ''toString'', JNum (js ''1''))]]])
   = None"
  by (simp add: sanitizeGridData_def sanitizeRow_def sanitizeCell_def)

text \<open>
  Claim C9.  Every cell of a grid goes through the coercion to a string before the rows
  reach the sheet writer.  If the coercion of a cell throws, \<open>sanitizeGridData\<close> throws
  and no grid reaches the writer.  Otherwise the sanitized grid is a list of rows of
  strings, it has the rows of the grid, each with as many cells (no cell for a row that
  is no array), and a cell is the empty string for \<open>null\<close> and \<open>undefined\<close> and the
  text \<open>String\<close> gives to its value for every other cell.
\<close>

theorem sanitizeGridData_cells:
  assumes "sanitizeGridData (JArr rows) = Some out"
  shows "length out = length rows \<and>
         (\<forall>i<length rows.
            case rows ! i of
              JArr cells \<Rightarrow>
                length (out ! i) = length cells \<and>
                (\<forall>j<length cells.
                   if cells ! j = JNull \<or> cells ! j = JUndefined then out ! i ! j = []
                   else jsString (cells ! j) = Some (out ! i ! j))
            | _ \<Rightarrow> out ! i = [])"
proof -
  from assms have t: "those (map sanitizeRow rows) = Some out"
    by (simp add: sanitizeGridData_def)
  from those_Some_nth [OF t] have l: "length out = length rows"
    and r: "\<And>i. i < length rows \<Longrightarrow> sanitizeRow (rows ! i) = Some (out ! i)"
    by simp_all
  have "case rows ! i of
          JArr cells \<Rightarrow>
            length (out ! i) = length cells \<and>
            (\<forall>j<length cells.
               if cells ! j = JNull \<or> cells ! j = JUndefined then out ! i ! j = []
               else jsString (cells ! j) = Some (out ! i ! j))
        | _ \<Rightarrow> out ! i = []" if i: "i < length rows" for i
  proof (cases "rows ! i")
    case (JArr cells)
    with r [OF i] have c: "those (map sanitizeCell cells) = Some (out ! i)"
      by (simp add: sanitizeRow_def)
    from those_Some_nth [OF c] have lc: "length (out ! i) = length cells"
      and n: "\<And>j. j < length cells \<Longrightarrow> sanitizeCell (cells ! j) = Some (out ! i ! j)"
      by simp_all
    have "if cells ! j = JNull \<or> cells ! j = JUndefined then out ! i ! j = []
          else jsString (cells ! j) = Some (out ! i ! j)" if "j < length cells" for j
      using n [OF that] by (auto simp: sanitizeCell_def)
    with lc JArr show ?thesis by simp
  qed (use r [OF i] in \<open>simp_all add: sanitizeRow_def\<close>)
  with l show ?thesis by blast
qed

theorem sanitizeGridData_cells_witness:
  "sanitizeGridData
     (JArr [JArr [JStr (js ''A''), JNull, JUndefined, JBool True, JNum (js ''1.50''),
                  JObj [], JArr [JNull, JStr (js ''B'')]],
            JNull]) =
     Some [[js ''A'', [], [], js ''true'', js ''1.5'', js ''[object Object]'', js '',B''], []] \<and>
   length [[js ''A'', [], [], js ''true'', js ''1.5'', js ''[object Object]'', js '',B''], []::jsstring list]
     = length [JArr [JStr (js ''A''), JNull, JUndefined, JBool True, JNum (js ''1.50''),
                     JObj [], JArr [JNull, JStr (js ''B'')]],
               JNull] \<and>
   jsString (JNum (js ''1.50'')) = Some (js ''1.5'')"
proof -
  let ?cells = "[JStr (js ''A''), JNull, JUndefined, JBool True, JNum (js ''1.50''),
                 JObj [], JArr [JNull, JStr (js ''B'')]]"
  let ?rows = "[JArr ?cells, JNull]"
  let ?out = "[[js ''A'', [], [], js ''true'', js ''1.5'', js ''[object Object]'', js '',B''],
               []::jsstring list]"
  have t: "numberToString [49, 46, 53, 48] = [49, 46, 53]"
    using numberToString_1_50 by (simp add: js_def)
  have e: "sanitizeGridData (JArr ?rows) = Some ?out"
    by (simp add: sanitizeGridData_def sanitizeRow_def sanitizeCell_def t js_def)
  from sanitizeGridData_cells [OF e]
  have l: "length ?out = length ?rows"
    and c: "\<forall>i<length ?rows.
              case ?rows ! i of
                JArr cells \<Rightarrow>
                  length (?out ! i) = length cells \<and>
                  (\<forall>j<length cells.
                     if cells ! j = JNull \<or> cells ! j = JUndefined then ?out ! i ! j = []
                     else jsString (cells ! j) = Some (?out ! i ! j))
              | _ \<Rightarrow> ?out ! i = []"
    by blast+
  from c have "case ?rows ! 0 of
                JArr cells \<Rightarrow>
                  length (?out ! 0) = length cells \<and>
                  (\<forall>j<length cells.
                     if cells ! j = JNull \<or> cells ! j = JUndefined then ?out ! 0 ! j = []
                     else jsString (cells ! j) = Some (?out ! 0 ! j))
              | _ \<Rightarrow> ?out ! 0 = []"
    by (rule allE [where x = 0]) simp
  then have "\<forall>j<length ?cells.
               if ?cells ! j = JNull \<or> ?cells ! j = JUndefined then ?out ! 0 ! j = []
               else jsString (?cells ! j) = Some (?out ! 0 ! j)"
    by simp
  then have "if ?cells ! 4 = JNull \<or> ?cells ! 4 = JUndefined then ?out ! 0 ! 4 = []
             else jsString (?cells ! 4) = Some (?out ! 0 ! 4)"
    by (rule allE [where x = 4]) simp
  then have n: "jsString (JNum (js ''1.50'')) = Some (js ''1.5'')"
    by simp
  from e l n show ?thesis by (intro conjI)
qed





lemma rtrim_Cons:
  assumes "\<not> isSpace c"
  shows "\<exists>r. rev (dropWhile isSpace (rev (c # cs))) = c # r"
proof (cases "\<forall>x\<in>set (rev cs). isSpace x")
  case True
  then have "dropWhile isSpace (rev cs @ [c]) = [c]"
    using assms by (simp add: dropWhile_append)
  then show ?thesis by simp
next
  case False
  then have "dropWhile isSpace (rev cs @ [c]) = dropWhile isSpace (rev cs) @ [c]"
    by (simp add: dropWhile_append)
  then show ?thesis by simp
qed





lemma cleanResponse_object:
  assumes "dropWhile isSpace p = 123 # q"
  shows "\<exists>t. trim p = 123 # t \<and> cleanResponse p = stripCommentLines True (123 # t) \<and>
             stripCommentLines True (123 # t) = 123 # stripCommentLines False t"
proof -
  have ns: "\<not> isSpace 123" by (simp add: isSpace_def)
  from rtrim_Cons [OF ns, of q] obtain t where t: "rev (dropWhile isSpace (rev (123 # q))) = 123 # t"
    by blast
  then have tr: "trim p = 123 # t"
    by (simp add: trim_def assms)
  have st: "stripCommentLines True (123 # t) = 123 # stripCommentLines False t"
    using ns by (simp add: stripCommentLines.simps startsWith_def js_def isLineTerminator_def)
  have "\<not> startsWith (123 # t) (js ''```'')"
    by (simp add: startsWith_def js_def)
  then have "cleanResponse p = fromFirstBrace (stripCommentLines True (123 # t))"
    by (simp add: cleanResponse_def tr Let_def)
  also have "\<dots> = stripCommentLines True (123 # t)"
    by (simp add: st fromFirstBrace_def)
  finally show ?thesis using tr st by blast
qed









































































lemma separator_map_text: "stringify [(js ''1'', [[[8232, 47, 47]]])] = js ''{\"1\":[[\"'' @ [8232] @ js ''//\"]]}''"
  by (simp add: stringify_def ownKeys_def isArrayIndex_def isDigit_def digitsValue_def js_def
      stringifyGrid_def stringifyRow_def quoteJSON_def quoteOne_def isLeadSurrogate_def
      isTrailSurrogate_def)

lemma separator_map_cleaned: "cleanResponse (js ''{\"1\":[[\"'' @ [8232] @ js ''//\"]]}'') = js ''{\"1\":[[\"'' @ [8232]"
  by (simp add: cleanResponse_def trim_def startsWith_def fromFirstBrace_def js_def isSpace_def
      stripCommentLines.simps isLineTerminator_def)

lemma separator_map_tokens: "tokenize (js ''{\"1\":[[\"'' @ [8232]) = None"
  by (simp add: js_def isJsonSpace_def isDigit_def consTo_def)

lemma separator_map_repair: "tryRepairJson (js ''{\"1\":[[\"'' @ [8232]) = JNull"
  by (simp add: tryRepairJson_def lastIndexOf_def js_def upt_conv_Cons)

text \<open>
  Claim C5.  The map with the single page \<open>1\<close> whose only cell is a LINE SEPARATOR followed
  by two slashes is serialised with that cell as it is; the removal of comment lines
  takes the separator for the start of a line and deletes the rest of the text, so that
  reading the serialisation fails, where the claim has the map back.
\<close>

theorem roundtrip_line_separator:
  "parseResponse (stringify [(js ''1'', [[[8232, 47, 47]]])]) = Inl (ErrorObj truncatedMessage)"
proof -
  have "truthy (tryRepairJson (js ''{\"1\":[[\"'' @ [8232])) = False"
    unfolding separator_map_repair by simp
  then show ?thesis
    unfolding separator_map_text parseResponse_def Let_def separator_map_cleaned JSONparse_def
      separator_map_tokens by simp
qed

lemma cut_map_text:
  "take 28 (stringify [(js ''1'', [[js ''A'' @ [8232] @ js ''//foo'' @ [8232]], [js ''B''], [js ''C'']])])
   = js ''{\"1\":[[\"A'' @ [8232] @ js ''//foo'' @ [8232] @ js ''\"],[\"B\"],[\"C''"
  by (simp add: stringify_def ownKeys_def isArrayIndex_def isDigit_def digitsValue_def js_def
      stringifyGrid_def stringifyRow_def quoteJSON_def quoteOne_def isLeadSurrogate_def
      isTrailSurrogate_def)

lemma cut_map_cleaned:
  "cleanResponse (js ''{\"1\":[[\"A'' @ [8232] @ js ''//foo'' @ [8232] @ js ''\"],[\"B\"],[\"C'')
   = js ''{\"1\":[[\"A'' @ [8232, 8232] @ js ''\"],[\"B\"],[\"C''"
  by (simp add: cleanResponse_def trim_def startsWith_def fromFirstBrace_def js_def isSpace_def
      stripCommentLines.simps isLineTerminator_def)

lemma cut_map_tokens:
  "tokenize (js ''{\"1\":[[\"A'' @ [8232, 8232] @ js ''\"],[\"B\"],[\"C'') = None"
  by (simp add: js_def isJsonSpace_def isDigit_def consTo_def)

lemma cut_map_repair:
  "tryRepairJson (js ''{\"1\":[[\"A'' @ [8232, 8232] @ js ''\"],[\"B\"],[\"C'') =
   JObj [(js ''1'', JArr [JArr [JStr (js ''A'' @ [8232, 8232])], JArr [JStr (js ''B'')]])]"
proof -
  let ?c = "js ''{\"1\":[[\"A'' @ [8232, 8232] @ js ''\"],[\"B\"],[\"C''"
  let ?f = "js ''{\"1\":[[\"A'' @ [8232, 8232] @ js ''\"],[\"B\"]''"
  have l: "lastIndexOf ?c (js ''],'') = Some 18"
    by (simp add: lastIndexOf_def js_def upt_conv_Cons)
  have f: "take (18 + 1) ?c = ?f"
    by (simp add: js_def)
  have 1: "JSONparse (?f @ js ''}}'') = None"
    by (simp add: JSONparse_def js_def isJsonSpace_def isDigit_def consTo_def startsWithToken_def
        memberKey_def)
  have 2: "JSONparse (?f @ js '']}'') =
     Some (JObj [(js ''1'', JArr [JArr [JStr (js ''A'' @ [8232, 8232])], JArr [JStr (js ''B'')]])])"
    by (simp add: JSONparse_def js_def isJsonSpace_def isDigit_def consTo_def startsWithToken_def
        memberKey_def)
  show ?thesis
    unfolding tryRepairJson_def Let_def l option.case f firstParse.simps 1 2 by simp
qed

text \<open>
  Claim C4.  The serialisation of a map whose first cell has two LINE SEPARATORs in it,
  the first followed by two slashes, cut off in its third row: the removal of comment
  lines deletes the part of the first cell between the separators, the repair closes the
  text after the second row, and the map returned has a first row that is no row of the
  text that was cut off, where the claim has complete leading rows only, or an error.
\<close>

theorem repair_line_separator:
  "parseResponse
     (take 28 (stringify [(js ''1'', [[js ''A'' @ [8232] @ js ''//foo'' @ [8232]], [js ''B''], [js ''C'']])]))
   = Inr (mapValue [(js ''1'', [[js ''A'' @ [8232, 8232]], [js ''B'']])])"
proof -
  have "truthy (JObj [(js ''1'', JArr [JArr [JStr (js ''A'' @ [8232, 8232])], JArr [JStr (js ''B'')]])])"
    by simp
  then show ?thesis
    unfolding cut_map_text parseResponse_def Let_def cut_map_cleaned JSONparse_def cut_map_tokens
      cut_map_repair
    by (simp add: mapValue_def gridValue_def)
qed

section \<open>The depth bound of the JSON descent\<close>

lemma parse_fuel_Suc:
  "(\<forall>ts r. parseValue n ts = Some r \<longrightarrow> parseValue (Suc n) ts = Some r) \<and>
   (\<forall>ts acc r. parseElements n ts acc = Some r \<longrightarrow> parseElements (Suc n) ts acc = Some r) \<and>
   (\<forall>ts acc r. parseMembers n ts acc = Some r \<longrightarrow> parseMembers (Suc n) ts acc = Some r)"
proof (induction n)
  case 0
  show ?case by simp
next
  case (Suc n)
  then have v: "\<And>ts r. parseValue n ts = Some r \<Longrightarrow> parseValue (Suc n) ts = Some r"
    and e: "\<And>ts acc r. parseElements n ts acc = Some r \<Longrightarrow> parseElements (Suc n) ts acc = Some r"
    and m: "\<And>ts acc r. parseMembers n ts acc = Some r \<Longrightarrow> parseMembers (Suc n) ts acc = Some r"
    by blast+
  have "parseValue (Suc (Suc n)) ts = Some r" if "parseValue (Suc n) ts = Some r" for ts r
  proof (cases ts)
    case Nil
    with that show ?thesis by simp
  next
    case (Cons t ts')
    with that e m show ?thesis
      by (cases t) (auto split: if_splits)
  qed
  moreover have "parseElements (Suc (Suc n)) ts acc = Some r"
    if "parseElements (Suc n) ts acc = Some r" for ts acc r
  proof -
    from that obtain v ts' where pv: "parseValue n ts = Some (v, ts')"
      by (auto split: option.splits)
    from v [OF pv] have pv': "parseValue (Suc n) ts = Some (v, ts')" .
    from that have a: "(if startsWithToken ts' TComma then parseElements n (tl ts') (acc @ [v])
                        else if startsWithToken ts' TRBrack then Some (JArr (acc @ [v]), tl ts')
                        else None) = Some r"
      by (simp add: pv)
    have b: "parseElements (Suc (Suc n)) ts acc =
               (if startsWithToken ts' TComma then parseElements (Suc n) (tl ts') (acc @ [v])
                else if startsWithToken ts' TRBrack then Some (JArr (acc @ [v]), tl ts')
                else None)"
      by (simp add: pv' del: parseElements.simps(2) [of n] parseValue.simps)
    show ?thesis
      unfolding b using a e by (auto simp del: parseElements.simps split: if_splits)
  qed
  moreover have "parseMembers (Suc (Suc n)) ts acc = Some r"
    if "parseMembers (Suc n) ts acc = Some r" for ts acc r
  proof -
    from that obtain k ts' v ts'' where mk: "memberKey ts = Some (k, ts')"
      and pv: "parseValue n ts' = Some (v, ts'')"
      by (auto split: option.splits)
    from v [OF pv] have pv': "parseValue (Suc n) ts' = Some (v, ts'')" .
    from that have a: "(if startsWithToken ts'' TComma
                        then parseMembers n (tl ts'') (setProp acc k v)
                        else if startsWithToken ts'' TRBrace
                        then Some (JObj (setProp acc k v), tl ts'') else None) = Some r"
      by (simp add: mk pv)
    have b: "parseMembers (Suc (Suc n)) ts acc =
               (if startsWithToken ts'' TComma
                then parseMembers (Suc n) (tl ts'') (setProp acc k v)
                else if startsWithToken ts'' TRBrace
                then Some (JObj (setProp acc k v), tl ts'') else None)"
      by (simp add: mk pv' del: parseMembers.simps(2) [of n] parseValue.simps)
    show ?thesis
      unfolding b using a m by (auto simp del: parseMembers.simps split: if_splits)
  qed
  ultimately show ?case by blast
qed


lemma parseValue_fuel_mono:
  "parseValue n ts = Some r \<Longrightarrow> n \<le> m \<Longrightarrow> parseValue m ts = Some r"
  by (induction m) (auto simp: le_Suc_eq parse_fuel_Suc simp del: parseValue.simps)

lemma parseElements_fuel_mono:
  "parseElements n ts acc = Some r \<Longrightarrow> n \<le> m \<Longrightarrow> parseElements m ts acc = Some r"
  by (induction m) (auto simp: le_Suc_eq parse_fuel_Suc simp del: parseElements.simps)

lemma parseMembers_fuel_mono:
  "parseMembers n ts acc = Some r \<Longrightarrow> n \<le> m \<Longrightarrow> parseMembers m ts acc = Some r"
  by (induction m) (auto simp: le_Suc_eq parse_fuel_Suc simp del: parseMembers.simps)

lemma startsWithToken_tl: "startsWithToken ts t \<Longrightarrow> length (tl ts) < length ts"
  by (cases ts) (simp_all add: startsWithToken_def)

lemma memberKey_length: "memberKey ts = Some (k, ts') \<Longrightarrow> length ts = Suc (Suc (length ts'))"
  by (auto simp: memberKey_def split: list.splits token.splits)

lemma parse_fuel_bound:
  "(\<forall>ts v rest. parseValue n ts = Some (v, rest) \<longrightarrow>
      length rest < length ts \<and> parseValue (length ts - length rest) ts = Some (v, rest)) \<and>
   (\<forall>ts acc v rest. parseElements n ts acc = Some (v, rest) \<longrightarrow>
      length rest < length ts \<and> parseElements (length ts - length rest) ts acc = Some (v, rest)) \<and>
   (\<forall>ts acc v rest. parseMembers n ts acc = Some (v, rest) \<longrightarrow>
      length rest < length ts \<and> parseMembers (length ts - length rest) ts acc = Some (v, rest))"
proof (induction n)
  case 0
  show ?case by simp
next
  case (Suc n)
  then have v: "\<And>ts v rest. parseValue n ts = Some (v, rest) \<Longrightarrow>
      length rest < length ts \<and> parseValue (length ts - length rest) ts = Some (v, rest)"
    and e: "\<And>ts acc v rest. parseElements n ts acc = Some (v, rest) \<Longrightarrow>
      length rest < length ts \<and> parseElements (length ts - length rest) ts acc = Some (v, rest)"
    and m: "\<And>ts acc v rest. parseMembers n ts acc = Some (v, rest) \<Longrightarrow>
      length rest < length ts \<and> parseMembers (length ts - length rest) ts acc = Some (v, rest)"
    by blast+
  have V: "length rest < length ts \<and> parseValue (length ts - length rest) ts = Some (v, rest)"
    if "parseValue (Suc n) ts = Some (v, rest)" for ts v rest
  proof (cases ts)
    case Nil
    with that show ?thesis by simp
  next
    case (Cons t ts')
    have scalar: ?thesis if "rest = ts'" "parseValue (Suc 0) (t # ts') = Some (v, ts')"
      using that Cons by simp
    show ?thesis
    proof (cases t)
      case TLBrack
      show ?thesis
      proof (cases "startsWithToken ts' TRBrack")
        case True
        with that Cons TLBrack have r: "rest = tl ts'" "v = JArr []" by simp_all
        have l: "length (tl ts') < length ts'" using True by (rule startsWithToken_tl)
        have "parseValue (Suc 0) ts = Some (v, rest)"
          using True TLBrack Cons r by simp
        then have "parseValue (length ts - length rest) ts = Some (v, rest)"
          by (rule parseValue_fuel_mono) (use l r Cons in simp)
        then show ?thesis using l r Cons by simp
      next
        case False
        with that Cons TLBrack have "parseElements n ts' [] = Some (v, rest)" by simp
        from e [OF this] have l: "length rest < length ts'"
          and p: "parseElements (length ts' - length rest) ts' [] = Some (v, rest)" by simp_all
        from l have "length ts - length rest = Suc (length ts' - length rest)"
          using Cons by simp
        then show ?thesis using l p False TLBrack Cons by simp
      qed
    next
      case TLBrace
      show ?thesis
      proof (cases "startsWithToken ts' TRBrace")
        case True
        with that Cons TLBrace have r: "rest = tl ts'" "v = JObj []" by simp_all
        have l: "length (tl ts') < length ts'" using True by (rule startsWithToken_tl)
        have "parseValue (Suc 0) ts = Some (v, rest)"
          using True TLBrace Cons r by simp
        then have "parseValue (length ts - length rest) ts = Some (v, rest)"
          by (rule parseValue_fuel_mono) (use l r Cons in simp)
        then show ?thesis using l r Cons by simp
      next
        case False
        with that Cons TLBrace have "parseMembers n ts' [] = Some (v, rest)" by simp
        from m [OF this] have l: "length rest < length ts'"
          and p: "parseMembers (length ts' - length rest) ts' [] = Some (v, rest)" by simp_all
        from l have "length ts - length rest = Suc (length ts' - length rest)"
          using Cons by simp
        then show ?thesis using l p False TLBrace Cons by simp
      qed
    qed (use that Cons in auto)
  qed
  have E: "length rest < length ts \<and> parseElements (length ts - length rest) ts acc = Some (v, rest)"
    if "parseElements (Suc n) ts acc = Some (v, rest)" for ts acc v rest
  proof -
    from that obtain x ts' where pv: "parseValue n ts = Some (x, ts')"
      by (auto split: option.splits)
    from v [OF pv] have l1: "length ts' < length ts"
      and p1: "parseValue (length ts - length ts') ts = Some (x, ts')" by simp_all
    from that have a: "(if startsWithToken ts' TComma then parseElements n (tl ts') (acc @ [x])
                        else if startsWithToken ts' TRBrack then Some (JArr (acc @ [x]), tl ts')
                        else None) = Some (v, rest)"
      by (simp add: pv)
    show ?thesis
    proof (cases "startsWithToken ts' TComma")
      case True
      with a have "parseElements n (tl ts') (acc @ [x]) = Some (v, rest)" by simp
      from e [OF this] have l2: "length rest < length (tl ts')"
        and p2: "parseElements (length (tl ts') - length rest) (tl ts') (acc @ [x]) = Some (v, rest)"
        by simp_all
      have l3: "length (tl ts') < length ts'" using True by (rule startsWithToken_tl)
      obtain k where k: "length ts - length rest = Suc k" "length ts - length ts' \<le> k"
        "length (tl ts') - length rest \<le> k"
        using l1 l2 l3 by (cases "length ts - length rest") auto
      have "parseValue k ts = Some (x, ts')"
        using p1 k(2) by (rule parseValue_fuel_mono)
      moreover have "parseElements k (tl ts') (acc @ [x]) = Some (v, rest)"
        using p2 k(3) by (rule parseElements_fuel_mono)
      ultimately have "parseElements (Suc k) ts acc = Some (v, rest)"
        using True by simp
      then show ?thesis using k(1) l1 l2 l3 by simp
    next
      case False
      with a have b: "startsWithToken ts' TRBrack" and r: "rest = tl ts'" "v = JArr (acc @ [x])"
        by (auto split: if_splits)
      have l3: "length (tl ts') < length ts'" using b by (rule startsWithToken_tl)
      obtain k where k: "length ts - length rest = Suc k" "length ts - length ts' \<le> k"
        using l1 l3 r by (cases "length ts - length rest") auto
      have "parseValue k ts = Some (x, ts')"
        using p1 k(2) by (rule parseValue_fuel_mono)
      then have "parseElements (Suc k) ts acc = Some (v, rest)"
        using False b r by simp
      then show ?thesis using k(1) l1 l3 r by simp
    qed
  qed
  have M: "length rest < length ts \<and> parseMembers (length ts - length rest) ts acc = Some (v, rest)"
    if "parseMembers (Suc n) ts acc = Some (v, rest)" for ts acc v rest
  proof -
    from that obtain key ts0 x ts' where mk: "memberKey ts = Some (key, ts0)"
      and pv: "parseValue n ts0 = Some (x, ts')"
      by (auto split: option.splits)
    from memberKey_length [OF mk] have l0: "length ts = Suc (Suc (length ts0))" .
    from v [OF pv] have l1: "length ts' < length ts0"
      and p1: "parseValue (length ts0 - length ts') ts0 = Some (x, ts')" by simp_all
    from that have a: "(if startsWithToken ts' TComma
                        then parseMembers n (tl ts') (setProp acc key x)
                        else if startsWithToken ts' TRBrace
                        then Some (JObj (setProp acc key x), tl ts') else None) = Some (v, rest)"
      by (simp add: mk pv)
    show ?thesis
    proof (cases "startsWithToken ts' TComma")
      case True
      with a have "parseMembers n (tl ts') (setProp acc key x) = Some (v, rest)" by simp
      from m [OF this] have l2: "length rest < length (tl ts')"
        and p2: "parseMembers (length (tl ts') - length rest) (tl ts') (setProp acc key x)
                 = Some (v, rest)"
        by simp_all
      have l3: "length (tl ts') < length ts'" using True by (rule startsWithToken_tl)
      obtain k where k: "length ts - length rest = Suc k" "length ts0 - length ts' \<le> k"
        "length (tl ts') - length rest \<le> k"
        using l0 l1 l2 l3 by (cases "length ts - length rest") auto
      have "parseValue k ts0 = Some (x, ts')"
        using p1 k(2) by (rule parseValue_fuel_mono)
      moreover have "parseMembers k (tl ts') (setProp acc key x) = Some (v, rest)"
        using p2 k(3) by (rule parseMembers_fuel_mono)
      ultimately have "parseMembers (Suc k) ts acc = Some (v, rest)"
        using True mk by simp
      then show ?thesis using k(1) l0 l1 l2 l3 by simp
    next
      case False
      with a have b: "startsWithToken ts' TRBrace"
        and r: "rest = tl ts'" "v = JObj (setProp acc key x)"
        by (auto split: if_splits)
      have l3: "length (tl ts') < length ts'" using b by (rule startsWithToken_tl)
      obtain k where k: "length ts - length rest = Suc k" "length ts0 - length ts' \<le> k"
        using l0 l1 l3 r by (cases "length ts - length rest") auto
      have "parseValue k ts0 = Some (x, ts')"
        using p1 k(2) by (rule parseValue_fuel_mono)
      then have "parseMembers (Suc k) ts acc = Some (v, rest)"
        using False b r mk by simp
      then show ?thesis using k(1) l0 l1 l3 r by simp
    qed
  qed
  from V E M show ?case by blast
qed

lemma parseValue_fuel_enough:
  assumes "parseValue n ts = Some (v, rest)"
  shows "parseValue (Suc (length ts)) ts = Some (v, rest)"
proof -
  from parse_fuel_bound [of n] assms
  have "parseValue (length ts - length rest) ts = Some (v, rest)" by blast
  then show ?thesis by (rule parseValue_fuel_mono) simp
qed


text \<open>The bound on the depth in \<open>JSONparse\<close> rejects no text that a larger bound accepts.\<close>

lemma JSONparse_any_fuel:
  assumes "tokenize text = Some ts" and "parseValue n ts = Some (v, [])"
  shows "JSONparse text = Some v"
  using assms(1) parseValue_fuel_enough [OF assms(2)] by (simp add: JSONparse_def)

end
